theory Spec2Isabelle
  imports Main
begin

section \<open>The renderer of cellule.js\<close>

text \<open>
  A shallow embedding of \<^verbatim>\<open>src/renderer.js\<close>. The class \<^verbatim>\<open>Renderer\<close> becomes a record
  that every method takes and returns; a \<^verbatim>\<open>throw\<close> becomes a left injection. A cell slot
  is a JavaScript object that is shared by reference (the bound cell and the neighborhood
  entries point at slots), so a slot is addressed by a reference: the index of its buffer
  and its index in that buffer. The values a sketch stores in a cell are opaque: they are
  values of a type variable, \<open>None\<close> standing for \<^verbatim>\<open>null\<close>. Such a value has no identity
  in HOL, so a sketch that mutates the object it got from \<^verbatim>\<open>cell()\<close> is outside the model.
\<close>

subsection \<open>Data\<close>

datatype error =
  SetupOnly \<comment> \<open>This function can only be called in the setup function.\<close>
  | LoopOnly \<comment> \<open>This function can only be called in loop function.\<close>
  | LoopOrConstructOnly \<comment> \<open>This function can only be called in loop or construct function.\<close>
  | TypeError \<comment> \<open>a property read or written on \<^verbatim>\<open>null\<close> or \<^verbatim>\<open>undefined\<close>\<close>
  | IndexSizeError \<comment> \<open>\<^verbatim>\<open>getImageData\<close> on an empty rectangle\<close>

type_synonym ref = "nat \<times> nat"

record 's slot =
  cell :: "'s option"
  neighborhood :: "ref option list option"
  pos :: "nat list option"

text \<open>
  A colour is a duck-typed object: any of the fields may be missing. A channel is an
  integer here; the fractional channels JavaScript allows are left out.
\<close>

record color =
  h :: "int option"
  s :: "int option"
  v :: "int option"
  r :: "int option"
  g :: "int option"
  b :: "int option"

text \<open>
  The fields of the class, in the order of the constructor. The sizes and the frame rate
  are natural numbers, \<open>step\<close> is 0 or 1. \<open>cells\<close> and \<open>image_data\<close> are the fields
  \<^verbatim>\<open>createAutomaton\<close> adds (\<open>[]\<close> and \<open>None\<close> while they are undefined);
  \<open>image_data\<close> is \<^verbatim>\<open>this.image.data\<close>. The last three fields are the platform: the
  interval timers that are armed (handle and period), the next timer handle and the
  pixels last put on the canvas.
\<close>

record 's renderer =
  fps :: nat
  step :: nat
  currentCell :: "ref option"
  currentId :: "int option"
  width :: nat
  height :: nat
  cellSize :: nat
  canvas :: "(nat \<times> nat) option"
  parentId :: "string option"
  interval :: "nat option"
  setupDone :: bool
  cells :: "'s slot list list"
  image_data :: "nat list option"
  timers :: "(nat \<times> nat) list"
  nextTimer :: nat
  screen :: "nat list option"

definition new_renderer :: "'s renderer" where
  "new_renderer =
     \<lparr> fps = 30, step = 0, currentCell = None, currentId = Some (- 1),
       width = 100, height = 100, cellSize = 1, canvas = None, parentId = None,
       interval = None, setupDone = False,
       cells = [], image_data = None, timers = [], nextTimer = 0, screen = None \<rparr>"

subsection \<open>Loops\<close>

text \<open>
  \<^verbatim>\<open>for(let i = i0; i < n; ++i) body\<close>, for a body that may throw and for one that does not.
\<close>

function for_loop :: "nat \<Rightarrow> nat \<Rightarrow> (nat \<Rightarrow> 'a \<Rightarrow> error + 'a) \<Rightarrow> 'a \<Rightarrow> error + 'a" where
  "for_loop i n body st =
     (if i < n
      then (case body i st of Inl e \<Rightarrow> Inl e | Inr st' \<Rightarrow> for_loop (Suc i) n body st')
      else Inr st)"
  by pat_completeness auto
termination
  by (relation "measure (\<lambda>(i, n, body, st). n - i)") auto

declare for_loop.simps [simp del]

function for_each :: "nat \<Rightarrow> nat \<Rightarrow> (nat \<Rightarrow> 'a \<Rightarrow> 'a) \<Rightarrow> 'a \<Rightarrow> 'a" where
  "for_each i n body st = (if i < n then for_each (Suc i) n body (body i st) else st)"
  by pat_completeness auto
termination
  by (relation "measure (\<lambda>(i, n, body, st). n - i)") auto

declare for_each.simps [simp del]

subsection \<open>Configuration\<close>

definition setCellSize :: "nat \<Rightarrow> 's renderer \<Rightarrow> error + 's renderer" where
  "setCellSize sz rd =
     (if setupDone rd then Inl SetupOnly else Inr (rd\<lparr>cellSize := sz\<rparr>))"

definition setSize :: "nat \<Rightarrow> nat \<Rightarrow> 's renderer \<Rightarrow> error + 's renderer" where
  "setSize w hg rd =
     (if setupDone rd then Inl SetupOnly else Inr (rd\<lparr>width := w, height := hg\<rparr>))"

definition setParent :: "string option \<Rightarrow> 's renderer \<Rightarrow> error + 's renderer" where
  "setParent p rd =
     (if setupDone rd then Inl SetupOnly else Inr (rd\<lparr>parentId := p\<rparr>))"

definition getFramerate :: "'s renderer \<Rightarrow> nat" where
  "getFramerate rd = fps rd"

text \<open>The platform's \<^verbatim>\<open>setInterval\<close> and \<^verbatim>\<open>clearInterval\<close>.\<close>

definition setInterval :: "nat \<Rightarrow> 's renderer \<Rightarrow> nat \<times> 's renderer" where
  "setInterval ms rd =
     (nextTimer rd, rd\<lparr>timers := timers rd @ [(nextTimer rd, ms)], nextTimer := Suc (nextTimer rd)\<rparr>)"

definition clearInterval :: "nat \<Rightarrow> 's renderer \<Rightarrow> 's renderer" where
  "clearInterval t rd = rd\<lparr>timers := filter (\<lambda>e. fst e \<noteq> t) (timers rd)\<rparr>"

definition setFramerate :: "nat \<Rightarrow> 's renderer \<Rightarrow> 's renderer" where
  "setFramerate f rd =
     (let rd1 = rd\<lparr>fps := f\<rparr>
      in case interval rd1 of
           None \<Rightarrow> rd1
         | Some t \<Rightarrow>
             (let (t', rd2) = setInterval (1000 div fps rd1) (clearInterval t rd1)
              in rd2\<lparr>interval := Some t'\<rparr>))"

subsection \<open>Slots\<close>

text \<open>
  \<^verbatim>\<open>this.cells[b][i]\<close>: \<open>None\<close> is \<^verbatim>\<open>undefined\<close>, an index past the end of the array.
\<close>

definition slot_at :: "'s renderer \<Rightarrow> ref \<Rightarrow> 's slot option" where
  "slot_at rd p =
     (case p of (bf, i) \<Rightarrow>
        if bf < length (cells rd) \<and> i < length (cells rd ! bf)
        then Some (cells rd ! bf ! i) else None)"

definition slot_upd :: "ref \<Rightarrow> ('s slot \<Rightarrow> 's slot) \<Rightarrow> 's renderer \<Rightarrow> error + 's renderer" where
  "slot_upd p f rd =
     (case p of (bf, i) \<Rightarrow>
        (case slot_at rd p of
           None \<Rightarrow> Inl TypeError
         | Some sl \<Rightarrow> Inr (rd\<lparr>cells := (cells rd)[bf := (cells rd ! bf)[i := f sl]]\<rparr>)))"

subsection \<open>The cell context\<close>

text \<open>
  \<open>currentId\<close> is compared with \<^verbatim>\<open>null\<close>, which is \<open>None\<close>; the value the constructor
  and the end of a pass give it is \<open>- 1\<close>.
\<close>

definition getId :: "'s renderer \<Rightarrow> error + int" where
  "getId rd =
     (case currentId rd of None \<Rightarrow> Inl LoopOrConstructOnly | Some i \<Rightarrow> Inr i)"

definition getCell :: "'s renderer \<Rightarrow> error + 's option" where
  "getCell rd =
     (case currentCell rd of
        None \<Rightarrow> Inl LoopOnly
      | Some cr \<Rightarrow> (case slot_at rd cr of None \<Rightarrow> Inl TypeError | Some sl \<Rightarrow> Inr (cell sl)))"

text \<open>
  \<^verbatim>\<open>JSON.parse(JSON.stringify(x))\<close> gives a fresh object with the same content; on values
  without identity it is the identity (the values JSON does not carry are left out).
\<close>

definition cloneCell :: "'s renderer \<Rightarrow> error + 's option" where
  "cloneCell rd =
     (case currentCell rd of
        None \<Rightarrow> Inl LoopOnly
      | Some cr \<Rightarrow> (case slot_at rd cr of None \<Rightarrow> Inl TypeError | Some sl \<Rightarrow> Inr (cell sl)))"

text \<open>
  An index past the end of the neighborhood reads \<^verbatim>\<open>undefined\<close>, which \<^verbatim>\<open>== null\<close>.
\<close>

definition getNeighbor :: "nat \<Rightarrow> 's renderer \<Rightarrow> error + 's option" where
  "getNeighbor index rd =
     (case currentCell rd of
        None \<Rightarrow> Inl LoopOnly
      | Some cr \<Rightarrow>
          (case slot_at rd cr of
             None \<Rightarrow> Inl TypeError
           | Some sl \<Rightarrow>
               (case neighborhood sl of
                  None \<Rightarrow> Inl TypeError
                | Some ns \<Rightarrow>
                    if index < length ns
                    then (case ns ! index of
                            None \<Rightarrow> Inr None
                          | Some nr \<Rightarrow>
                              (case slot_at rd nr of
                                 None \<Rightarrow> Inl TypeError
                               | Some nsl \<Rightarrow> Inr (cell nsl)))
                    else Inr None)))"

subsection \<open>Drawing\<close>

text \<open>
  \<^verbatim>\<open>this.image.data\<close> is a \<^verbatim>\<open>Uint8ClampedArray\<close>: a stored number is clamped to a byte
  (\<^verbatim>\<open>undefined\<close> is stored as 0), and a store outside the array is dropped.
\<close>

definition to_u8 :: "int option \<Rightarrow> nat" where
  "to_u8 c = (case c of None \<Rightarrow> 0 | Some n \<Rightarrow> nat (max 0 (min 255 n)))"

definition put_byte :: "int \<Rightarrow> nat \<Rightarrow> nat list \<Rightarrow> nat list" where
  "put_byte p x d = (if 0 \<le> p \<and> nat p < length d then d[nat p := x] else d)"

text \<open>
  \<^verbatim>\<open>if(c.h != undefined) c = util.hsvToRgb(c)\<close>; \<^verbatim>\<open>util.hsvToRgb\<close>, which is not in
  the source under study, is the parameter \<open>cv\<close>.
\<close>

definition to_rgb :: "(color \<Rightarrow> color) \<Rightarrow> color \<Rightarrow> color" where
  "to_rgb cv c = (if h c \<noteq> None then cv c else c)"

text \<open>
  When \<open>y\<close> is no index of \<open>pos\<close>, \<open>p\<close> is \<^verbatim>\<open>NaN\<close> and the four stores are dropped.
\<close>

definition setPoint :: "(color \<Rightarrow> color) \<Rightarrow> int \<Rightarrow> int \<Rightarrow> color \<Rightarrow> 's renderer \<Rightarrow> error + 's renderer" where
  "setPoint cv x y c rd =
     (case currentCell rd of
        None \<Rightarrow> Inl LoopOnly
      | Some cr \<Rightarrow>
          (let c1 = to_rgb cv c
           in case slot_at rd cr of
                None \<Rightarrow> Inl TypeError
              | Some sl \<Rightarrow>
                  (case pos sl of
                     None \<Rightarrow> Inl TypeError
                   | Some ps \<Rightarrow>
                       (case image_data rd of
                          None \<Rightarrow> Inl TypeError
                        | Some d \<Rightarrow>
                            if 0 \<le> y \<and> nat y < length ps
                            then (let p = int (ps ! nat y) + x * 4
                                  in Inr (rd\<lparr>image_data :=
                                       Some (put_byte (p + 3) 255
                                         (put_byte (p + 2) (to_u8 (b c1))
                                           (put_byte (p + 1) (to_u8 (g c1))
                                             (put_byte (p + 0) (to_u8 (r c1)) d))))\<rparr>))
                            else Inr rd))))"

definition setBackground :: "(color \<Rightarrow> color) \<Rightarrow> color \<Rightarrow> 's renderer \<Rightarrow> error + 's renderer" where
  "setBackground cv c rd =
     (let c1 = to_rgb cv c
      in for_loop 0 (cellSize rd)
           (\<lambda>i. for_loop 0 (cellSize rd) (\<lambda>j. setPoint cv (int i) (int j) c1)) rd)"

subsection \<open>The grid\<close>

definition offsets :: "(int \<times> int) list" where
  "offsets =
     [(- 1, - 1), \<comment> \<open>TOPLEFT\<close>
      (0, - 1),   \<comment> \<open>TOP\<close>
      (1, - 1),   \<comment> \<open>TOPRIGHT\<close>
      (1, 0),     \<comment> \<open>RIGHT\<close>
      (1, 1),     \<comment> \<open>BOTTOMRIGHT\<close>
      (0, 1),     \<comment> \<open>BOTTOM\<close>
      (- 1, 1),   \<comment> \<open>BOTTOMLEFT\<close>
      (- 1, 0)]   \<comment> \<open>LEFT\<close>"

text \<open>
  \<^verbatim>\<open>this.cells[b][k]\<close> as the neighborhood stores it: the reference to the slot, or
  \<^verbatim>\<open>undefined\<close> (which \<^verbatim>\<open>== null\<close>) when there is no such slot.
\<close>

definition slot_ref :: "'s renderer \<Rightarrow> nat \<Rightarrow> int \<Rightarrow> ref option" where
  "slot_ref rd bf k =
     (if 0 \<le> k \<and> slot_at rd (bf, nat k) \<noteq> None then Some (bf, nat k) else None)"

definition computeNeighborhood :: "'s renderer \<Rightarrow> int \<Rightarrow> int \<Rightarrow> ref option list \<times> ref option list" where
  "computeNeighborhood rd x y =
     for_each 0 (length offsets)
       (\<lambda>i (n0, n1).
          let newX = x + fst (offsets ! i);
              newY = y + snd (offsets ! i)
          in if newX < 0 \<or> newX \<ge> int (width rd) \<or> newY < 0 \<or> newY \<ge> int (height rd)
             then (n0 @ [None], n1 @ [None])
             else (n0 @ [slot_ref rd 0 (newX + newY * int (width rd))],
                   n1 @ [slot_ref rd 1 (newX + newY * int (width rd))]))
       ([], [])"

text \<open>
  The slots \<^verbatim>\<open>{cell: null, neighborhood: null, pos: null}\<close> of the first loop of
  \<^verbatim>\<open>createAutomaton\<close>, and the body of its second loop.
\<close>

definition blank :: "'s slot" where
  "blank = \<lparr> cell = None, neighborhood = None, pos = None \<rparr>"

definition cell_pos :: "'s renderer \<Rightarrow> nat \<Rightarrow> nat \<Rightarrow> nat list" where
  "cell_pos rd x y =
     for_each 0 (cellSize rd)
       (\<lambda>j ps. ps[j := ((j + y * cellSize rd) * width rd + x) * cellSize rd * 4])
       (replicate (cellSize rd) 0)"

definition fill_slot :: "nat \<Rightarrow> 's renderer \<Rightarrow> 's renderer" where
  "fill_slot i rd =
     (let x = i mod width rd;
          y = i div width rd;
          nb = computeNeighborhood rd (int x) (int y);
          ps = cell_pos rd x y
      in rd\<lparr>cells :=
           [(cells rd ! 0)[i := (cells rd ! 0 ! i)\<lparr>neighborhood := Some (fst nb), pos := Some ps\<rparr>],
            (cells rd ! 1)[i := (cells rd ! 1 ! i)\<lparr>neighborhood := Some (snd nb), pos := Some ps\<rparr>]]\<rparr>)"

text \<open>
  The document is the list of the identifiers of its elements: \<^verbatim>\<open>getElementById\<close> of
  another one is \<^verbatim>\<open>null\<close>, and \<^verbatim>\<open>appendChild\<close> on it throws. The image of a new canvas
  is transparent black; \<^verbatim>\<open>getImageData\<close> throws on an empty rectangle.
\<close>

definition createAutomaton :: "string list \<Rightarrow> 's renderer \<Rightarrow> error + 's renderer" where
  "createAutomaton elementIds rd =
     (if (case parentId rd of None \<Rightarrow> False | Some p \<Rightarrow> p \<notin> set elementIds)
      then Inl TypeError
      else
        (let cw = width rd * cellSize rd;
             ch = height rd * cellSize rd
         in if cw = 0 \<or> ch = 0 then Inl IndexSizeError
            else
              (let rd1 = rd\<lparr>canvas := Some (cw, ch),
                           image_data := Some (replicate (cw * ch * 4) 0),
                           cells := [replicate (width rd * height rd) blank,
                                     replicate (width rd * height rd) blank]\<rparr>
               in Inr (for_each 0 (width rd1 * height rd1) fill_slot rd1))))"

subsection \<open>The sketch\<close>

text \<open>
  A call-back of the sketch takes no argument: it reads through \<^verbatim>\<open>cell()\<close>,
  \<^verbatim>\<open>cloneCell()\<close>, \<^verbatim>\<open>neighbor(index)\<close> and \<^verbatim>\<open>id()\<close>, draws through \<^verbatim>\<open>point\<close> and
  \<^verbatim>\<open>background\<close> and returns the state of the cell. It is a tree of such calls, each
  with the rest of the call-back as a function of what the call returned. The set-up
  call-back is the list of the configuration calls it makes.
\<close>

datatype 's prog =
  Return "'s option"
  | CallCell "'s option \<Rightarrow> 's prog"
  | CallCloneCell "'s option \<Rightarrow> 's prog"
  | CallNeighbor nat "'s option \<Rightarrow> 's prog"
  | CallId "int \<Rightarrow> 's prog"
  | CallPoint int int color "'s prog"
  | CallBackground color "'s prog"

datatype config =
  SetSize nat nat
  | SetCellSize nat
  | SetParent "string option"
  | SetFramerate nat

record 's host =
  g_setup :: "config list option"
  g_construct :: "'s prog option"
  g_loop :: "'s prog option"
  hsvToRgb :: "color \<Rightarrow> color"
  elementIds :: "string list"

primrec run :: "(color \<Rightarrow> color) \<Rightarrow> 's prog \<Rightarrow> 's renderer \<Rightarrow> error + ('s option \<times> 's renderer)" where
  "run cv (Return x) rd = Inr (x, rd)"
| "run cv (CallCell k) rd =
     (case getCell rd of Inl e \<Rightarrow> Inl e | Inr x \<Rightarrow> run cv (k x) rd)"
| "run cv (CallCloneCell k) rd =
     (case cloneCell rd of Inl e \<Rightarrow> Inl e | Inr x \<Rightarrow> run cv (k x) rd)"
| "run cv (CallNeighbor index k) rd =
     (case getNeighbor index rd of Inl e \<Rightarrow> Inl e | Inr x \<Rightarrow> run cv (k x) rd)"
| "run cv (CallId k) rd =
     (case getId rd of Inl e \<Rightarrow> Inl e | Inr i \<Rightarrow> run cv (k i) rd)"
| "run cv (CallPoint x y c k) rd =
     (case setPoint cv x y c rd of Inl e \<Rightarrow> Inl e | Inr rd' \<Rightarrow> run cv k rd')"
| "run cv (CallBackground c k) rd =
     (case setBackground cv c rd of Inl e \<Rightarrow> Inl e | Inr rd' \<Rightarrow> run cv k rd')"

fun run_config :: "config list \<Rightarrow> 's renderer \<Rightarrow> error + 's renderer" where
  "run_config [] rd = Inr rd"
| "run_config (SetSize w hg # cs) rd =
     (case setSize w hg rd of Inl e \<Rightarrow> Inl e | Inr rd' \<Rightarrow> run_config cs rd')"
| "run_config (SetCellSize n # cs) rd =
     (case setCellSize n rd of Inl e \<Rightarrow> Inl e | Inr rd' \<Rightarrow> run_config cs rd')"
| "run_config (SetParent p # cs) rd =
     (case setParent p rd of Inl e \<Rightarrow> Inl e | Inr rd' \<Rightarrow> run_config cs rd')"
| "run_config (SetFramerate f # cs) rd = run_config cs (setFramerate f rd)"

subsection \<open>Start and tick\<close>

text \<open>
  The body of the loop of the construction pass, and of the loop of a tick. \<open>step\<close> is 0
  or 1 wherever the source sets it, so that \<open>1 - step\<close> is the other one of the two.
  The bound of a loop is read once, before the loop: no call of a call-back changes a size.
\<close>

definition construct_cell :: "(color \<Rightarrow> color) \<Rightarrow> 's prog \<Rightarrow> nat \<Rightarrow> 's renderer \<Rightarrow> error + 's renderer" where
  "construct_cell cv cp i rd =
     (let rd1 = rd\<lparr>currentId := Some (int i)\<rparr>
      in case run cv cp rd1 of
           Inl e \<Rightarrow> Inl e
         | Inr (x, rd2) \<Rightarrow> slot_upd (step rd2, i) (\<lambda>sl. sl\<lparr>cell := x\<rparr>) rd2)"

definition bind_cell :: "nat \<Rightarrow> 's renderer \<Rightarrow> 's renderer" where
  "bind_cell i rd =
     rd\<lparr>currentCell := (if slot_at rd (step rd, i) = None then None else Some (step rd, i)),
        currentId := Some (int i)\<rparr>"

definition loop_cell :: "(color \<Rightarrow> color) \<Rightarrow> 's prog \<Rightarrow> nat \<Rightarrow> 's renderer \<Rightarrow> error + 's renderer" where
  "loop_cell cv lp i rd =
     (if length (cells rd) \<le> step rd then Inl TypeError
      else
        (let rd1 = bind_cell i rd
         in case run cv lp rd1 of
              Inl e \<Rightarrow> Inl e
            | Inr (x, rd2) \<Rightarrow> slot_upd (1 - step rd2, i) (\<lambda>sl. sl\<lparr>cell := x\<rparr>) rd2))"

definition unbind :: "'s renderer \<Rightarrow> 's renderer" where
  "unbind rd = rd\<lparr>currentCell := None, currentId := Some (- 1)\<rparr>"

text \<open>
  \<^verbatim>\<open>start\<close>, in its phases: the set-up call-back, the grid, the construction pass and
  the timer. \<^verbatim>\<open>Math.floor(1000 / this.fps)\<close> is \<open>1000 div fps\<close>; at \<open>fps = 0\<close> the
  quotient is infinite and the platform's timer takes it for 0, as \<open>div\<close> does.
\<close>

definition setup_phase :: "'s host \<Rightarrow> 's renderer \<Rightarrow> error + 's renderer" where
  "setup_phase hst rd =
     (case g_setup hst of None \<Rightarrow> Inr rd | Some cfg \<Rightarrow> run_config cfg rd)"

definition construct_phase :: "'s host \<Rightarrow> 's renderer \<Rightarrow> error + 's renderer" where
  "construct_phase hst rd =
     (case g_construct hst of
        None \<Rightarrow> Inr rd
      | Some cp \<Rightarrow>
          (case for_loop 0 (width rd * height rd) (construct_cell (hsvToRgb hst) cp) rd of
             Inl e \<Rightarrow> Inl e
           | Inr rd' \<Rightarrow> Inr (unbind rd')))"

definition start :: "'s host \<Rightarrow> 's renderer \<Rightarrow> error + 's renderer" where
  "start hst rd =
     (case setup_phase hst rd of
        Inl e \<Rightarrow> Inl e
      | Inr rd1 \<Rightarrow>
          (case createAutomaton (elementIds hst) rd1 of
             Inl e \<Rightarrow> Inl e
           | Inr rd2 \<Rightarrow>
               (case construct_phase hst rd2 of
                  Inl e \<Rightarrow> Inl e
                | Inr rd3 \<Rightarrow>
                    (let (t, rd4) = setInterval (1000 div fps rd3) rd3
                     in Inr (rd4\<lparr>interval := Some t\<rparr>)))))"

text \<open>
  \<^verbatim>\<open>this.context\<close> is undefined, as \<^verbatim>\<open>this.image\<close> is, until \<^verbatim>\<open>createAutomaton\<close> has run.
\<close>

definition onRender :: "'s host \<Rightarrow> 's renderer \<Rightarrow> error + 's renderer" where
  "onRender hst rd =
     (case g_loop hst of
        None \<Rightarrow> Inr rd
      | Some lp \<Rightarrow>
          (case for_loop 0 (width rd * height rd) (loop_cell (hsvToRgb hst) lp) rd of
             Inl e \<Rightarrow> Inl e
           | Inr rd1 \<Rightarrow>
               (let rd2 = (unbind rd1)\<lparr>step := 1 - step rd1\<rparr>
                in case image_data rd2 of
                     None \<Rightarrow> Inl TypeError
                   | Some d \<Rightarrow> Inr (rd2\<lparr>screen := Some d\<rparr>))))"

section \<open>Notions of the specification\<close>

subsection \<open>Visiting a list of indices\<close>

text \<open>
  The body applied to each index of a list, from left to right, until one throws.
\<close>

fun each_in :: "nat list \<Rightarrow> (nat \<Rightarrow> 'a \<Rightarrow> error + 'a) \<Rightarrow> 'a \<Rightarrow> error + 'a" where
  "each_in [] body st = Inr st"
| "each_in (i # is) body st =
     (case body i st of Inl e \<Rightarrow> Inl e | Inr st' \<Rightarrow> each_in is body st')"

subsection \<open>The neighborhood, as the specification words it\<close>

text \<open>
  The neighbour at a coordinate: the slot of the same buffer at \<open>nx + ny * w\<close>, absent
  when the coordinate is outside \<open>[0, w) \<times> [0, hg)\<close>. The eight neighbours of \<open>(x, y)\<close>
  are TOPLEFT, TOP, TOPRIGHT, RIGHT, BOTTOMRIGHT, BOTTOM, BOTTOMLEFT, LEFT, in this order.
\<close>

definition neighbor_at :: "nat \<Rightarrow> nat \<Rightarrow> nat \<Rightarrow> int \<Rightarrow> int \<Rightarrow> ref option" where
  "neighbor_at w hg bf nx ny =
     (if 0 \<le> nx \<and> nx < int w \<and> 0 \<le> ny \<and> ny < int hg
      then Some (bf, nat (nx + ny * int w)) else None)"

definition neighbors_of :: "nat \<Rightarrow> nat \<Rightarrow> nat \<Rightarrow> int \<Rightarrow> int \<Rightarrow> ref option list" where
  "neighbors_of w hg bf x y =
     [neighbor_at w hg bf (x - 1) (y - 1),
      neighbor_at w hg bf x (y - 1),
      neighbor_at w hg bf (x + 1) (y - 1),
      neighbor_at w hg bf (x + 1) y,
      neighbor_at w hg bf (x + 1) (y + 1),
      neighbor_at w hg bf x (y + 1),
      neighbor_at w hg bf (x - 1) (y + 1),
      neighbor_at w hg bf (x - 1) y]"

subsection \<open>The grid that \<^verbatim>\<open>createAutomaton\<close> leaves\<close>

text \<open>
  The raster offsets of the rows of cell \<open>i\<close>, and the grid whose slots all carry their
  neighborhood and their offsets, with an image of the size of the canvas. The payload of
  the slots is free.
\<close>

definition pos_of :: "nat \<Rightarrow> nat \<Rightarrow> nat \<Rightarrow> nat list" where
  "pos_of w cs i = map (\<lambda>j. ((j + (i div w) * cs) * w + i mod w) * cs * 4) [0..<cs]"

definition grid_ok :: "'s renderer \<Rightarrow> bool" where
  "grid_ok rd =
     (length (cells rd) = 2 \<and> step rd \<le> 1 \<and>
      map neighborhood (cells rd ! 0) =
        map (\<lambda>i. Some (neighbors_of (width rd) (height rd) 0 (int (i mod width rd)) (int (i div width rd))))
          [0..<width rd * height rd] \<and>
      map neighborhood (cells rd ! 1) =
        map (\<lambda>i. Some (neighbors_of (width rd) (height rd) 1 (int (i mod width rd)) (int (i div width rd))))
          [0..<width rd * height rd] \<and>
      map pos (cells rd ! 0) = map (\<lambda>i. Some (pos_of (width rd) (cellSize rd) i)) [0..<width rd * height rd] \<and>
      map pos (cells rd ! 1) = map (\<lambda>i. Some (pos_of (width rd) (cellSize rd) i)) [0..<width rd * height rd] \<and>
      map_option length (image_data rd) = Some (width rd * cellSize rd * (height rd * cellSize rd) * 4))"

text \<open>The grid as \<^verbatim>\<open>start\<close> has it when the construction pass begins.\<close>

definition materialized :: "'s host \<Rightarrow> 's renderer \<Rightarrow> error + 's renderer" where
  "materialized hst rd =
     (case setup_phase hst rd of
        Inl e \<Rightarrow> Inl e
      | Inr rd1 \<Rightarrow> createAutomaton (elementIds hst) rd1)"

subsection \<open>A cell's turn\<close>

text \<open>
  The renderer as the loop call-back of cell \<open>i\<close> finds it in the tick that starts from
  \<open>rd\<close>: the cells before \<open>i\<close> have had their turn and the context is bound to \<open>i\<close>.
  What that call-back returns, and what the construct call-back of cell \<open>i\<close> returns in
  the construction pass that starts from \<open>rd\<close>; \<open>None\<close> when the pass throws before.
\<close>

definition tick_view :: "(color \<Rightarrow> color) \<Rightarrow> 's prog \<Rightarrow> nat \<Rightarrow> 's renderer \<Rightarrow> error + 's renderer" where
  "tick_view cv lp i rd =
     (case each_in [0..<i] (loop_cell cv lp) rd of
        Inl e \<Rightarrow> Inl e
      | Inr rdi \<Rightarrow> Inr (bind_cell i rdi))"

definition tick_result :: "(color \<Rightarrow> color) \<Rightarrow> 's prog \<Rightarrow> nat \<Rightarrow> 's renderer \<Rightarrow> 's option option" where
  "tick_result cv lp i rd =
     (case tick_view cv lp i rd of
        Inl e \<Rightarrow> None
      | Inr vw \<Rightarrow> (case run cv lp vw of Inl e \<Rightarrow> None | Inr res \<Rightarrow> Some (fst res)))"

definition construct_result :: "(color \<Rightarrow> color) \<Rightarrow> 's prog \<Rightarrow> nat \<Rightarrow> 's renderer \<Rightarrow> 's option option" where
  "construct_result cv cp i rd =
     (case each_in [0..<i] (construct_cell cv cp) rd of
        Inl e \<Rightarrow> None
      | Inr rdi \<Rightarrow>
          (case run cv cp (rdi\<lparr>currentId := Some (int i)\<rparr>) of
             Inl e \<Rightarrow> None
           | Inr res \<Rightarrow> Some (fst res)))"

text \<open>
  The state of the \<open>k\<close>-th neighbour of cell \<open>i\<close> in the current buffer of \<open>rd\<close>.
\<close>

definition neighbor_cell :: "'s renderer \<Rightarrow> nat \<Rightarrow> nat \<Rightarrow> 's option" where
  "neighbor_cell rd i k =
     (if k < 8
      then (case neighbors_of (width rd) (height rd) (step rd)
                   (int (i mod width rd)) (int (i div width rd)) ! k of
              None \<Rightarrow> None
            | Some nr \<Rightarrow> cell (cells rd ! step rd ! snd nr))
      else None)"

subsection \<open>The raster\<close>

text \<open>
  The raster offset of the top-left pixel of cell \<open>i\<close>, the raster being
  \<open>w * cs\<close> pixels wide and a pixel 4 bytes.
\<close>

definition pixelOrigin :: "nat \<Rightarrow> nat \<Rightarrow> nat \<Rightarrow> nat" where
  "pixelOrigin w cs i = ((i div w) * cs * (w * cs) + (i mod w) * cs) * 4"

text \<open>
  A renderer whose context is unbound, or bound to a slot of the grid.
\<close>

definition well_bound :: "'s renderer \<Rightarrow> bool" where
  "well_bound rd =
     (case currentCell rd of
        None \<Rightarrow> True
      | Some cr \<Rightarrow> fst cr < 2 \<and> snd cr < width rd * height rd)"

subsection \<open>The scheduler\<close>

text \<open>
  Modelled from the spec: \<^verbatim>\<open>stop()\<close> is missing from the source under study, which has
  \<^verbatim>\<open>start\<close>, \<^verbatim>\<open>setFramerate\<close> and \<^verbatim>\<open>onRender\<close> only. The specification says that
  \<^verbatim>\<open>stop()\<close> "transitions Running to Idle, cancelling the pending timer": it clears the
  timer the renderer holds and forgets it.
\<close>

definition stop :: "'s renderer \<Rightarrow> 's renderer" where
  "stop rd =
     (case interval rd of
        None \<Rightarrow> rd
      | Some t \<Rightarrow> (clearInterval t rd)\<lparr>interval := None\<rparr>)"

text \<open>
  What can happen to a renderer until \<^verbatim>\<open>start\<close> is called again: a timer of the platform
  fires, which runs \<^verbatim>\<open>onRender\<close> to its end before anything else happens (one thread, no
  pre-emption); the frame rate is set; \<^verbatim>\<open>stop()\<close> is called. A timer fires only while
  one is armed: \<open>None\<close> says that the events cannot happen in this order. When a tick
  throws, the events are followed no further.
\<close>

datatype event = Fire | Framerate nat | Stop

fun replay :: "'s host \<Rightarrow> event list \<Rightarrow> 's renderer \<Rightarrow> (error + 's renderer) option" where
  "replay hst [] rd = Some (Inr rd)"
| "replay hst (Fire # evs) rd =
     (if timers rd = [] then None
      else (case onRender hst rd of Inl e \<Rightarrow> Some (Inl e) | Inr rd' \<Rightarrow> replay hst evs rd'))"
| "replay hst (Framerate f # evs) rd = replay hst evs (setFramerate f rd)"
| "replay hst (Stop # evs) rd = replay hst evs (stop rd)"

text \<open>
  The states of the scheduler: idle, with no timer armed and none held; running, with one
  timer armed, which is the one the renderer holds.
\<close>

definition idle :: "'s renderer \<Rightarrow> bool" where
  "idle rd = (timers rd = [] \<and> interval rd = None)"

definition running :: "'s renderer \<Rightarrow> bool" where
  "running rd =
     (case interval rd of None \<Rightarrow> False | Some t \<Rightarrow> map fst (timers rd) = [t])"

subsection \<open>Auxiliary notions of the proofs\<close>

text \<open>One entry of the neighborhood, as the loop of \<^verbatim>\<open>computeNeighborhood\<close> pushes it.\<close>

definition entry :: "'s renderer \<Rightarrow> nat \<Rightarrow> int \<Rightarrow> int \<Rightarrow> int \<times> int \<Rightarrow> ref option" where
  "entry rd bf x y off =
     (let newX = x + fst off; newY = y + snd off
      in if newX < 0 \<or> newX \<ge> int (width rd) \<or> newY < 0 \<or> newY \<ge> int (height rd)
         then None else slot_ref rd bf (newX + newY * int (width rd)))"

text \<open>A slot once filled, and a buffer whose first \<open>k\<close> slots are.\<close>

definition filled :: "nat \<Rightarrow> nat \<Rightarrow> nat \<Rightarrow> nat \<Rightarrow> nat \<Rightarrow> 's slot \<Rightarrow> 's slot" where
  "filled w hg cs bf i sl =
     sl\<lparr>neighborhood := Some (neighbors_of w hg bf (int (i mod w)) (int (i div w))),
        pos := Some (pos_of w cs i)\<rparr>"

definition part_filled :: "nat \<Rightarrow> nat \<Rightarrow> nat \<Rightarrow> nat \<Rightarrow> nat \<Rightarrow> 's slot list" where
  "part_filled w hg cs bf k =
     map (\<lambda>i. if i < k then filled w hg cs bf i blank else blank) [0..<w * hg]"

text \<open>
  Two renderers that differ in the bytes of the image only; and two that differ in the
  payload of the slots, the image and the bound cell only, the buffer \<open>keep\<close> being the same.
\<close>

definition only_image :: "'s renderer \<Rightarrow> 's renderer \<Rightarrow> bool" where
  "only_image rd rd' =
     (\<exists>d. rd' = rd\<lparr>image_data := d\<rparr> \<and>
          map_option length d = map_option length (image_data rd))"

definition frame :: "nat \<Rightarrow> 's renderer \<Rightarrow> 's renderer \<Rightarrow> bool" where
  "frame keep rd rd' =
     (\<exists>cs d cc ci.
        rd' = rd\<lparr>cells := cs, image_data := d, currentCell := cc, currentId := ci\<rparr> \<and>
        length cs = length (cells rd) \<and>
        (\<forall>bf. map neighborhood (cs ! bf) = map neighborhood (cells rd ! bf) \<and>
              map pos (cs ! bf) = map pos (cells rd ! bf)) \<and>
        cs ! keep = cells rd ! keep \<and>
        map_option length d = map_option length (image_data rd))"

text \<open>
  The four bytes of a colour; an image \<open>d'\<close> that is \<open>d\<close> with the pixels of \<open>S\<close> (pixel
  indices, row by row) painted in a colour; a renderer whose context is bound to a slot
  of the grid; and the index of the pixel \<open>(x, y)\<close> of cell \<open>i\<close>.
\<close>

definition rgba :: "color \<Rightarrow> nat list" where
  "rgba c = [to_u8 (r c), to_u8 (g c), to_u8 (b c), 255]"

definition painted :: "nat set \<Rightarrow> color \<Rightarrow> nat list \<Rightarrow> nat list \<Rightarrow> bool" where
  "painted S c d d' =
     (length d' = length d \<and>
      (\<forall>q < length d. d' ! q = (if q div 4 \<in> S then rgba c ! (q mod 4) else d ! q)))"

definition bound_ok :: "'s renderer \<Rightarrow> nat \<Rightarrow> nat \<Rightarrow> bool" where
  "bound_ok rd bf i =
     (grid_ok rd \<and> currentCell rd = Some (bf, i) \<and> bf < 2 \<and> i < width rd * height rd)"

definition pixel_of :: "'s renderer \<Rightarrow> nat \<Rightarrow> nat \<Rightarrow> nat \<Rightarrow> nat" where
  "pixel_of rd i x y =
     (i div width rd * cellSize rd + y) * (width rd * cellSize rd) + (i mod width rd * cellSize rd + x)"

subsection \<open>A sketch to run\<close>

text \<open>
  A grid of 2 by 2 cells of 2 by 2 pixels. A cell is constructed alive when its identifier
  is 0; in a tick it takes the state of its right neighbour, and cell 0 fills its background
  with red. \<open>demo0\<close> is the grid before the construction pass, \<open>demo1\<close> the renderer after
  \<^verbatim>\<open>start\<close>, \<open>demo2\<close> after the first tick and \<open>demo_mid\<close> in the second tick, after the
  turns of the cells 0 and 1. \<open>grid3\<close> is a grid of 3 by 3 cells whose slots are still
  blank, as \<^verbatim>\<open>createAutomaton\<close> has it when it computes the neighborhoods.
\<close>

definition red :: color where
  "red = \<lparr>h = None, s = None, v = None, r = Some 255, g = Some 0, b = Some 0\<rparr>"

definition demo_loop :: "bool prog" where
  "demo_loop =
     CallCell (\<lambda>c. CallNeighbor 3 (\<lambda>n. CallId (\<lambda>i.
       if i = 0 then CallBackground red (Return n) else Return n)))"

definition demo_construct :: "bool prog" where
  "demo_construct = CallId (\<lambda>i. Return (Some (i = 0)))"

definition demo :: "bool host" where
  "demo = \<lparr> g_setup = Some [SetSize 2 2, SetCellSize 2],
            g_construct = Some demo_construct,
            g_loop = Some demo_loop,
            hsvToRgb = (\<lambda>c. c), elementIds = [] \<rparr>"

definition demo_cells :: "bool option list \<Rightarrow> bool option list \<Rightarrow> bool slot list list" where
  "demo_cells xs ys =
     [map (\<lambda>i. filled 2 2 2 0 i (blank\<lparr>cell := xs ! i\<rparr>)) [0..<4],
      map (\<lambda>i. filled 2 2 2 1 i (blank\<lparr>cell := ys ! i\<rparr>)) [0..<4]]"

definition demo0 :: "bool renderer" where
  "demo0 = new_renderer\<lparr>width := 2, height := 2, cellSize := 2, canvas := Some (4, 4),
      cells := demo_cells [None, None, None, None] [None, None, None, None],
      image_data := Some (replicate 64 0)\<rparr>"

definition demo1 :: "bool renderer" where
  "demo1 = demo0\<lparr>cells := demo_cells [Some True, Some False, Some False, Some False] [None, None, None, None],
      timers := [(0, 33)], nextTimer := 1, interval := Some 0\<rparr>"

definition red_block :: "nat list" where
  "red_block = [255, 0, 0, 255, 255, 0, 0, 255, 0, 0, 0, 0, 0, 0, 0, 0,
                255, 0, 0, 255, 255, 0, 0, 255, 0, 0, 0, 0, 0, 0, 0, 0] @ replicate 32 0"

definition demo2 :: "bool renderer" where
  "demo2 = demo1\<lparr>step := 1,
      cells := demo_cells [Some True, Some False, Some False, Some False] [Some False, None, Some False, None],
      image_data := Some red_block, screen := Some red_block\<rparr>"

definition demo_mid :: "bool renderer" where
  "demo_mid = demo2\<lparr>currentCell := Some (1, 1), currentId := Some 1,
      cells := demo_cells [None, None, Some False, Some False] [Some False, None, Some False, None]\<rparr>"

definition grid3 :: "unit renderer" where
  "grid3 = new_renderer\<lparr>width := 3, height := 3,
      cells := [replicate 9 blank, replicate 9 blank]\<rparr>"

text \<open>
  Red as an HSV colour, and the sketch with a construct call-back that draws a point.
\<close>

definition hsv_red :: color where
  "hsv_red = \<lparr>h = Some 0, s = Some 255, v = Some 255, r = None, g = None, b = None\<rparr>"

definition demo_draws :: "bool host" where
  "demo_draws = demo\<lparr>g_construct := Some (CallPoint 0 0 red demo_construct)\<rparr>"

section \<open>Lemmas\<close>

subsection \<open>Loops\<close>

lemma for_loop_upt: "for_loop i n body st = each_in [i..<n] body st"
proof (induction i n body st rule: for_loop.induct)
  case (1 i n body st)
  show ?case
  proof (cases "i < n")
    case True
    then show ?thesis
      using 1 by (subst for_loop.simps) (simp add: upt_rec split: sum.splits)
  next
    case False
    then show ?thesis by (subst for_loop.simps) simp
  qed
qed

lemma for_each_upt: "for_each i n body st = fold body [i..<n] st"
proof (induction i n body st rule: for_each.induct)
  case (1 i n body st)
  show ?case
  proof (cases "i < n")
    case True
    then show ?thesis
      using 1 by (subst for_each.simps) (simp add: upt_rec)
  next
    case False
    then show ?thesis by (subst for_each.simps) simp
  qed
qed

lemma each_in_append:
  "each_in (xs @ ys) body st =
     (case each_in xs body st of Inl e \<Rightarrow> Inl e | Inr st' \<Rightarrow> each_in ys body st')"
  by (induction xs arbitrary: st) (auto split: sum.splits)

lemma each_in_invariant:
  assumes "each_in xs body st = Inr st'"
    and "R st st"
    and "\<And>i a c. R st a \<Longrightarrow> body i a = Inr c \<Longrightarrow> R st c"
  shows "R st st'"
  using assms(1)
proof (induction xs arbitrary: st' rule: rev_induct)
  case Nil
  then show ?case using assms(2) by simp
next
  case (snoc x xs)
  then show ?case using assms(3)
    by (auto simp: each_in_append split: sum.splits)
qed

subsection \<open>The neighborhood\<close>

lemma index_in_grid:
  assumes "0 \<le> nx" "nx < int w" "0 \<le> ny" "ny < int hg"
  shows "nat (nx + ny * int w) < w * hg"
proof -
  obtain a c where a: "nx = int a" and c: "ny = int c"
    using assms by (metis nonneg_int_cases)
  have "a < w" "c < hg" using assms a c by simp_all
  then have "Suc c \<le> hg" by simp
  then have "Suc c * w \<le> hg * w" by (rule mult_le_mono1)
  then have "a + c * w < w * hg" using \<open>a < w\<close> by (simp add: mult.commute)
  moreover have "nat (nx + ny * int w) = a + c * w"
    unfolding a c by (simp add: nat_add_distrib nat_mult_distrib)
  ultimately show ?thesis by simp
qed

lemma slot_ref_inside:
  assumes "bf < length (cells rd)" "length (cells rd ! bf) = width rd * height rd"
    "0 \<le> nx" "nx < int (width rd)" "0 \<le> ny" "ny < int (height rd)"
  shows "slot_ref rd bf (nx + ny * int (width rd)) = Some (bf, nat (nx + ny * int (width rd)))"
  using assms index_in_grid[OF assms(3-6)] by (simp add: slot_ref_def slot_at_def)

lemma fold_push2:
  "k \<le> length xs \<Longrightarrow>
   fold (\<lambda>i (n0, n1). (n0 @ [f0 (xs ! i)], n1 @ [f1 (xs ! i)])) [0..<k] ([], []) =
     (map f0 (take k xs), map f1 (take k xs))"
  by (induction k) (simp_all add: take_Suc_conv_app_nth)

lemma computeNeighborhood_map:
  "computeNeighborhood rd x y = (map (entry rd 0 x y) offsets, map (entry rd 1 x y) offsets)"
proof -
  have "computeNeighborhood rd x y =
      fold (\<lambda>i (n0, n1). (n0 @ [entry rd 0 x y (offsets ! i)], n1 @ [entry rd 1 x y (offsets ! i)]))
        [0..<length offsets] ([], [])"
    unfolding computeNeighborhood_def for_each_upt entry_def Let_def
    by (rule arg_cong[where f="\<lambda>f. fold f _ _"]) (auto simp: fun_eq_iff)
  then show ?thesis by (simp add: fold_push2)
qed

lemma entry_neighbor_at:
  assumes "bf < length (cells rd)" "length (cells rd ! bf) = width rd * height rd"
  shows "entry rd bf x y (dx, dy) = neighbor_at (width rd) (height rd) bf (x + dx) (y + dy)"
  using slot_ref_inside[OF assms, of "x + dx" "y + dy"]
  by (auto simp: entry_def neighbor_at_def Let_def)

lemma computeNeighborhood_neighbors_of:
  assumes "length (cells rd) = 2" "length (cells rd ! 0) = width rd * height rd"
    "length (cells rd ! 1) = width rd * height rd"
  shows "computeNeighborhood rd x y =
     (neighbors_of (width rd) (height rd) 0 x y, neighbors_of (width rd) (height rd) 1 x y)"
  using assms by (simp add: computeNeighborhood_map offsets_def neighbors_of_def entry_neighbor_at)

subsection \<open>The grid of \<^verbatim>\<open>createAutomaton\<close>\<close>

lemma fold_store:
  "k \<le> length xs \<Longrightarrow> fold (\<lambda>j ps. ps[j := F j]) [0..<k] xs = map F [0..<k] @ drop k xs"
proof (induction k)
  case 0
  then show ?case by simp
next
  case (Suc k)
  then have "k < length xs" by simp
  then have "(map F [0..<k] @ drop k xs)[k := F k] = map F [0..<k] @ [F k] @ drop (Suc k) xs"
    by (simp add: list_update_append Cons_nth_drop_Suc[symmetric])
  with Suc show ?case by simp
qed

lemma cell_pos_eq: "cell_pos rd (i mod width rd) (i div width rd) = pos_of (width rd) (cellSize rd) i"
  by (simp add: cell_pos_def pos_of_def for_each_upt fold_store)

lemma map_upt_update:
  "k < n \<Longrightarrow> (map f [0..<n])[k := x] = map (f(k := x)) [0..<n]"
  by (rule nth_equalityI) (auto simp: nth_list_update)

lemma fill_slot_step:
  assumes "k < width rd * height rd"
    and "cells rd = [part_filled (width rd) (height rd) (cellSize rd) 0 k,
                     part_filled (width rd) (height rd) (cellSize rd) 1 k]"
  shows "fill_slot k rd =
           rd\<lparr>cells := [part_filled (width rd) (height rd) (cellSize rd) 0 (Suc k),
                        part_filled (width rd) (height rd) (cellSize rd) 1 (Suc k)]\<rparr>"
proof -
  have len: "length (cells rd) = 2" "length (cells rd ! 0) = width rd * height rd"
    "length (cells rd ! 1) = width rd * height rd"
    using assms(2) by (simp_all add: part_filled_def)
  have upd: "(part_filled w hg cs bf k)[k := filled w hg cs bf k blank] = part_filled w hg cs bf (Suc k)"
    if "k < w * hg" for w hg cs bf
    using that unfolding part_filled_def
    by (subst map_upt_update) (auto simp: fun_eq_iff less_Suc_eq)
  have at: "part_filled w hg cs bf k ! k = blank" if "k < w * hg" for w hg cs bf
    using that by (simp add: part_filled_def)
  show ?thesis
    using assms(1)
    by (simp add: fill_slot_def Let_def computeNeighborhood_neighbors_of[OF len] cell_pos_eq
        assms(2) at upd[unfolded filled_def] filled_def)
qed

lemma fill_all:
  assumes "cells rd = [replicate (width rd * height rd) blank, replicate (width rd * height rd) blank]"
    and "k \<le> width rd * height rd"
  shows "fold fill_slot [0..<k] rd =
           rd\<lparr>cells := [part_filled (width rd) (height rd) (cellSize rd) 0 k,
                        part_filled (width rd) (height rd) (cellSize rd) 1 k]\<rparr>"
  using assms(2)
proof (induction k)
  case 0
  have pf0: "part_filled w hg cs bf 0 = replicate (w * hg) blank" for w hg cs bf
    by (simp add: part_filled_def map_replicate_const)
  show ?case by (simp add: pf0 flip: assms(1))
next
  case (Suc k)
  then show ?case by (simp add: fill_slot_step)
qed

lemma createAutomaton_result:
  assumes "createAutomaton ids rd = Inr rd'"
  shows "rd' = rd\<lparr>canvas := Some (width rd * cellSize rd, height rd * cellSize rd),
                  image_data := Some (replicate (width rd * cellSize rd * (height rd * cellSize rd) * 4) 0),
                  cells := [part_filled (width rd) (height rd) (cellSize rd) 0 (width rd * height rd),
                            part_filled (width rd) (height rd) (cellSize rd) 1 (width rd * height rd)]\<rparr>"
  using assms
  by (auto simp: createAutomaton_def Let_def for_each_upt fill_all split: if_splits option.splits)

lemma part_filled_full:
  "map neighborhood (part_filled w hg cs bf (w * hg)) =
     map (\<lambda>i. Some (neighbors_of w hg bf (int (i mod w)) (int (i div w)))) [0..<w * hg]"
  "map pos (part_filled w hg cs bf (w * hg)) = map (\<lambda>i. Some (pos_of w cs i)) [0..<w * hg]"
  "map cell (part_filled w hg cs bf (w * hg)) = replicate (w * hg) None"
  by (auto simp: part_filled_def filled_def blank_def intro!: nth_equalityI)

lemma createAutomaton_grid_ok:
  assumes "createAutomaton ids rd = Inr rd'" "step rd \<le> 1"
  shows "grid_ok rd'"
  using assms(2) unfolding createAutomaton_result[OF assms(1)]
  by (simp add: grid_ok_def part_filled_full)

subsection \<open>What a call-back changes\<close>

lemma only_image_refl: "only_image rd rd"
  unfolding only_image_def by (rule exI[of _ "image_data rd"]) simp

lemma only_image_trans:
  assumes "only_image a c" "only_image c d"
  shows "only_image a d"
proof -
  from assms(1) obtain d1 where 1: "c = a\<lparr>image_data := d1\<rparr>"
    "map_option length d1 = map_option length (image_data a)"
    unfolding only_image_def by blast
  from assms(2) obtain d2 where 2: "d = c\<lparr>image_data := d2\<rparr>"
    "map_option length d2 = map_option length (image_data c)"
    unfolding only_image_def by blast
  have "d = a\<lparr>image_data := d2\<rparr>" unfolding 2(1) 1(1) by simp
  moreover have "map_option length d2 = map_option length (image_data a)"
    using 2(2) 1(2) unfolding 1(1) by simp
  ultimately show ?thesis unfolding only_image_def by blast
qed

lemma put_byte_length: "length (put_byte p x d) = length d"
  by (simp add: put_byte_def)

lemma setPoint_cases:
  assumes "setPoint cv x y c rd = Inr rd'"
  obtains cr sl ps d where "currentCell rd = Some cr" "slot_at rd cr = Some sl" "pos sl = Some ps"
    "image_data rd = Some d"
    "rd' = (if 0 \<le> y \<and> nat y < length ps
            then rd\<lparr>image_data :=
                   Some (put_byte (int (ps ! nat y) + x * 4 + 3) 255
                     (put_byte (int (ps ! nat y) + x * 4 + 2) (to_u8 (b (to_rgb cv c)))
                       (put_byte (int (ps ! nat y) + x * 4 + 1) (to_u8 (g (to_rgb cv c)))
                         (put_byte (int (ps ! nat y) + x * 4 + 0) (to_u8 (r (to_rgb cv c))) d))))\<rparr>
            else rd)"
proof (cases "currentCell rd")
  case None
  then show ?thesis using assms by (simp add: setPoint_def)
next
  case (Some cr)
  show ?thesis
  proof (cases "slot_at rd cr")
    case None
    then show ?thesis using assms Some by (simp add: setPoint_def)
  next
    case sl: (Some sl)
    show ?thesis
    proof (cases "pos sl")
      case None
      then show ?thesis using assms Some sl by (simp add: setPoint_def)
    next
      case ps: (Some ps)
      show ?thesis
      proof (cases "image_data rd")
        case None
        then show ?thesis using assms Some sl ps by (simp add: setPoint_def)
      next
        case d: (Some d)
        show ?thesis
          using assms Some sl ps d that[OF Some sl ps d]
          by (simp add: setPoint_def Let_def split: if_splits)
      qed
    qed
  qed
qed

lemma setPoint_only_image:
  assumes "setPoint cv x y c rd = Inr rd'"
  shows "only_image rd rd'"
proof -
  from assms obtain d d' where "image_data rd = Some d" "rd' = rd\<lparr>image_data := Some d'\<rparr>"
    "length d' = length d"
  proof (rule setPoint_cases)
    fix cr sl ps d
    assume *: "image_data rd = Some d"
      and **: "rd' = (if 0 \<le> y \<and> nat y < length ps
            then rd\<lparr>image_data :=
                   Some (put_byte (int (ps ! nat y) + x * 4 + 3) 255
                     (put_byte (int (ps ! nat y) + x * 4 + 2) (to_u8 (b (to_rgb cv c)))
                       (put_byte (int (ps ! nat y) + x * 4 + 1) (to_u8 (g (to_rgb cv c)))
                         (put_byte (int (ps ! nat y) + x * 4 + 0) (to_u8 (r (to_rgb cv c))) d))))\<rparr>
            else rd)"
    have id: "rd\<lparr>image_data := Some d\<rparr> = rd" using * by (cases rd) simp
    show thesis
    proof (cases "0 \<le> y \<and> nat y < length ps")
      case True
      with ** obtain d' where "rd' = rd\<lparr>image_data := Some d'\<rparr>" "length d' = length d"
        by (simp add: put_byte_length)
      with * show ?thesis by (rule that)
    next
      case False
      with ** have "rd' = rd\<lparr>image_data := Some d\<rparr>" by (simp add: id)
      with * show ?thesis by (rule that) simp
    qed
  qed
  then show ?thesis unfolding only_image_def by auto
qed

lemma each_in_only_image:
  assumes "\<And>i a c. body i a = Inr c \<Longrightarrow> only_image a c"
    and "each_in xs body st = Inr st'"
  shows "only_image st st'"
  using assms(2)
proof (induction xs arbitrary: st)
  case Nil
  then show ?case by (simp add: only_image_refl)
next
  case (Cons x xs)
  then obtain a where a: "body x st = Inr a" "each_in xs body a = Inr st'"
    by (auto split: sum.splits)
  from assms(1)[OF a(1)] Cons.IH[OF a(2)] show ?case by (rule only_image_trans)
qed

lemma setBackground_only_image:
  assumes "setBackground cv c rd = Inr rd'"
  shows "only_image rd rd'"
proof -
  have inner: "only_image a d"
    if "each_in js (\<lambda>j. setPoint cv i (int j) c1) a = Inr d" for js i c1 and a d :: "'a renderer"
    using setPoint_only_image that by (rule each_in_only_image)
  show ?thesis
    using inner assms[unfolded setBackground_def Let_def for_loop_upt]
    by (rule each_in_only_image)
qed

lemma run_only_image: "run cv p rd = Inr (x, rd') \<Longrightarrow> only_image rd rd'"
proof (induction p arbitrary: rd)
  case (Return x)
  then show ?case by (simp add: only_image_refl)
next
  case (CallCell k)
  from CallCell.prems obtain a where "run cv (k a) rd = Inr (x, rd')"
    by (auto split: sum.splits)
  then show ?case by (rule CallCell.IH[OF rangeI])
next
  case (CallCloneCell k)
  from CallCloneCell.prems obtain a where "run cv (k a) rd = Inr (x, rd')"
    by (auto split: sum.splits)
  then show ?case by (rule CallCloneCell.IH[OF rangeI])
next
  case (CallNeighbor index k)
  from CallNeighbor.prems obtain a where "run cv (k a) rd = Inr (x, rd')"
    by (auto split: sum.splits)
  then show ?case by (rule CallNeighbor.IH[OF rangeI])
next
  case (CallId k)
  from CallId.prems obtain a where "run cv (k a) rd = Inr (x, rd')"
    by (auto split: sum.splits)
  then show ?case by (rule CallId.IH[OF rangeI])
next
  case (CallPoint px py c p)
  from CallPoint.prems obtain a where a: "setPoint cv px py c rd = Inr a" "run cv p a = Inr (x, rd')"
    by (auto split: sum.splits)
  from setPoint_only_image[OF a(1)] CallPoint.IH[OF a(2)] show ?case by (rule only_image_trans)
next
  case (CallBackground c p)
  from CallBackground.prems obtain a where a: "setBackground cv c rd = Inr a" "run cv p a = Inr (x, rd')"
    by (auto split: sum.splits)
  from setBackground_only_image[OF a(1)] CallBackground.IH[OF a(2)] show ?case by (rule only_image_trans)
qed

subsection \<open>The turn of a cell in a tick\<close>

lemma loop_cell_cases:
  assumes "loop_cell cv lp i rd = Inr rd'"
  obtains x d sl where
    "run cv lp (bind_cell i rd) = Inr (x, (bind_cell i rd)\<lparr>image_data := d\<rparr>)"
    "map_option length d = map_option length (image_data rd)"
    "slot_at rd (1 - step rd, i) = Some sl"
    "rd' = (bind_cell i rd)\<lparr>image_data := d,
             cells := (cells rd)[1 - step rd := (cells rd ! (1 - step rd))[i := sl\<lparr>cell := x\<rparr>]]\<rparr>"
proof -
  from assms obtain x rd2 where run: "run cv lp (bind_cell i rd) = Inr (x, rd2)"
    and upd: "slot_upd (1 - step rd2, i) (\<lambda>sl. sl\<lparr>cell := x\<rparr>) rd2 = Inr rd'"
    by (auto simp: loop_cell_def Let_def split: if_splits sum.splits)
  from run_only_image[OF run] obtain d where d: "rd2 = (bind_cell i rd)\<lparr>image_data := d\<rparr>"
    "map_option length d = map_option length (image_data rd)"
    unfolding only_image_def by (auto simp: bind_cell_def)
  have st: "step rd2 = step rd" "cells rd2 = cells rd" "slot_at rd2 = slot_at rd"
    unfolding d(1) by (simp_all add: bind_cell_def slot_at_def fun_eq_iff)
  from upd obtain sl where sl: "slot_at rd (1 - step rd, i) = Some sl"
    and rd': "rd' = rd2\<lparr>cells := (cells rd)[1 - step rd := (cells rd ! (1 - step rd))[i := sl\<lparr>cell := x\<rparr>]]\<rparr>"
    unfolding slot_upd_def st by (auto split: option.splits)
  show thesis
    by (rule that[OF run[unfolded d(1)] d(2) sl]) (simp add: rd' d(1))
qed

lemma loop_cell_step: "loop_cell cv lp i rd = Inr rd' \<Longrightarrow> step rd' = step rd"
  by (erule loop_cell_cases) (simp add: bind_cell_def)

lemma scan_step:
  assumes "each_in xs (loop_cell cv lp) rd = Inr rd'"
  shows "step rd' = step rd"
  using assms
  by (rule each_in_invariant[where R = "\<lambda>a c. step c = step a"]) (simp_all add: loop_cell_step)

lemma onRender_cases:
  assumes "onRender hst rd = Inr rd'" "g_loop hst = Some lp"
  obtains rd1 d where
    "for_loop 0 (width rd * height rd) (loop_cell (hsvToRgb hst) lp) rd = Inr rd1"
    "image_data rd1 = Some d"
    "rd' = (unbind rd1)\<lparr>step := 1 - step rd1, screen := Some d\<rparr>"
  using assms
  by (auto simp: onRender_def Let_def unbind_def split: sum.splits option.splits)

subsection \<open>Reading through a bound context\<close>

lemma less_8_cases: "k < 8 \<Longrightarrow> k = 0 \<or> k = 1 \<or> k = 2 \<or> k = 3 \<or> k = 4 \<or> k = 5 \<or> k = 6 \<or> k = (7::nat)"
  by arith

lemma neighbors_of_nth:
  assumes "k < 8"
  shows "neighbors_of w hg bf x y ! k = neighbor_at w hg bf (x + fst (offsets ! k)) (y + snd (offsets ! k))"
  using less_8_cases[OF assms] by (auto simp: neighbors_of_def offsets_def)

lemma map_eq_nth:
  assumes "map F xs = map G [0..<n]" "i < n"
  shows "length xs = n" "F (xs ! i) = G i"
proof -
  show len: "length xs = n" using assms(1) by (metis length_map length_upt diff_zero)
  have "map F xs ! i = map G [0..<n] ! i" using assms(1) by simp
  then show "F (xs ! i) = G i" using assms(2) len by simp
qed

lemma grid_ok_slot:
  assumes "grid_ok rd" "bf < 2" "i < width rd * height rd"
  shows "length (cells rd ! bf) = width rd * height rd"
    and "neighborhood (cells rd ! bf ! i) =
           Some (neighbors_of (width rd) (height rd) bf (int (i mod width rd)) (int (i div width rd)))"
    and "pos (cells rd ! bf ! i) = Some (pos_of (width rd) (cellSize rd) i)"
    and "slot_at rd (bf, i) = Some (cells rd ! bf ! i)"
proof -
  have nb: "map neighborhood (cells rd ! bf) =
        map (\<lambda>i. Some (neighbors_of (width rd) (height rd) bf (int (i mod width rd)) (int (i div width rd))))
          [0..<width rd * height rd]"
    and ps: "map pos (cells rd ! bf) =
        map (\<lambda>i. Some (pos_of (width rd) (cellSize rd) i)) [0..<width rd * height rd]"
    and two: "length (cells rd) = 2"
    using assms(1,2) unfolding grid_ok_def by (auto simp: less_2_cases_iff)
  show len: "length (cells rd ! bf) = width rd * height rd"
    by (rule map_eq_nth(1)[OF nb assms(3)])
  show "neighborhood (cells rd ! bf ! i) =
           Some (neighbors_of (width rd) (height rd) bf (int (i mod width rd)) (int (i div width rd)))"
    by (rule map_eq_nth(2)[OF nb assms(3)])
  show "pos (cells rd ! bf ! i) = Some (pos_of (width rd) (cellSize rd) i)"
    by (rule map_eq_nth(2)[OF ps assms(3)])
  show "slot_at rd (bf, i) = Some (cells rd ! bf ! i)"
    using two len assms(2,3) by (simp add: slot_at_def)
qed

lemma slot_at_bind_cell [simp]: "slot_at (bind_cell i rd) = slot_at rd"
  by (simp add: bind_cell_def slot_at_def fun_eq_iff)

lemma getCell_bound:
  assumes "grid_ok rd" "i < width rd * height rd"
  shows "getCell (bind_cell i rd) = Inr (cell (cells rd ! step rd ! i))"
    and "cloneCell (bind_cell i rd) = Inr (cell (cells rd ! step rd ! i))"
proof -
  have st: "step rd < 2" using assms(1) by (simp add: grid_ok_def)
  note sl = grid_ok_slot(4)[OF assms(1) st assms(2)]
  have cc: "currentCell (bind_cell i rd) = Some (step rd, i)"
    by (simp add: bind_cell_def sl)
  show "getCell (bind_cell i rd) = Inr (cell (cells rd ! step rd ! i))"
    by (simp add: getCell_def cc sl)
  show "cloneCell (bind_cell i rd) = Inr (cell (cells rd ! step rd ! i))"
    by (simp add: cloneCell_def cc sl)
qed

lemma neighbor_at_cases:
  obtains "neighbor_at w hg bf nx ny = None"
  | j where "neighbor_at w hg bf nx ny = Some (bf, j)" "j < w * hg"
proof (cases "0 \<le> nx \<and> nx < int w \<and> 0 \<le> ny \<and> ny < int hg")
  case True
  then have "neighbor_at w hg bf nx ny = Some (bf, nat (nx + ny * int w))"
    by (simp add: neighbor_at_def)
  moreover have "nat (nx + ny * int w) < w * hg" using True by (simp add: index_in_grid)
  ultimately show ?thesis by (rule that(2))
next
  case False
  then have "neighbor_at w hg bf nx ny = None" by (simp add: neighbor_at_def)
  then show ?thesis by (rule that(1))
qed

lemma getNeighbor_bound:
  assumes "grid_ok rd" "i < width rd * height rd"
  shows "getNeighbor k (bind_cell i rd) = Inr (neighbor_cell rd i k)"
proof -
  have st: "step rd < 2" using assms(1) by (simp add: grid_ok_def)
  note sl = grid_ok_slot(4)[OF assms(1) st assms(2)]
  note nb = grid_ok_slot(2)[OF assms(1) st assms(2)]
  have cc: "currentCell (bind_cell i rd) = Some (step rd, i)"
    by (simp add: bind_cell_def sl)
  let ?ns = "neighbors_of (width rd) (height rd) (step rd) (int (i mod width rd)) (int (i div width rd))"
  have len: "length ?ns = 8" by (simp add: neighbors_of_def)
  show ?thesis
  proof (cases "k < 8")
    case False
    then show ?thesis by (simp add: getNeighbor_def cc sl nb len neighbor_cell_def)
  next
    case True
    let ?nx = "int (i mod width rd) + fst (offsets ! k)"
    let ?ny = "int (i div width rd) + snd (offsets ! k)"
    have nth: "?ns ! k = neighbor_at (width rd) (height rd) (step rd) ?nx ?ny"
      by (rule neighbors_of_nth[OF True])
    show ?thesis
    proof (cases rule: neighbor_at_cases[of "width rd" "height rd" "step rd" ?nx ?ny])
      case 1
      then show ?thesis using True by (simp add: getNeighbor_def cc sl nb len neighbor_cell_def nth)
    next
      case (2 j)
      note slj = grid_ok_slot(4)[OF assms(1) st 2(2)]
      show ?thesis using True by (simp add: getNeighbor_def cc sl nb len neighbor_cell_def nth 2(1) slj)
    qed
  qed
qed

subsection \<open>What a pass changes\<close>

lemma frameI:
  assumes "rd' = rd\<lparr>cells := cs, image_data := d, currentCell := cc, currentId := ci\<rparr>"
    and "length cs = length (cells rd)"
    and "\<And>bf. map neighborhood (cs ! bf) = map neighborhood (cells rd ! bf)"
    and "\<And>bf. map pos (cs ! bf) = map pos (cells rd ! bf)"
    and "cs ! keep = cells rd ! keep"
    and "map_option length d = map_option length (image_data rd)"
  shows "frame keep rd rd'"
  unfolding frame_def using assms by blast

lemma frameE:
  assumes "frame keep rd rd'"
  obtains cs d cc ci where
    "rd' = rd\<lparr>cells := cs, image_data := d, currentCell := cc, currentId := ci\<rparr>"
    "length cs = length (cells rd)"
    "\<And>bf. map neighborhood (cs ! bf) = map neighborhood (cells rd ! bf)"
    "\<And>bf. map pos (cs ! bf) = map pos (cells rd ! bf)"
    "cs ! keep = cells rd ! keep"
    "map_option length d = map_option length (image_data rd)"
  using assms unfolding frame_def by blast

lemma frame_refl: "frame keep rd rd"
  by (rule frameI[where cs = "cells rd" and d = "image_data rd" and cc = "currentCell rd"
        and ci = "currentId rd"]) simp_all

lemma frame_trans:
  assumes "frame keep a c" "frame keep c d"
  shows "frame keep a d"
proof -
  from assms(1) obtain cs1 d1 cc1 ci1 where 1:
    "c = a\<lparr>cells := cs1, image_data := d1, currentCell := cc1, currentId := ci1\<rparr>"
    "length cs1 = length (cells a)"
    "\<forall>bf. map neighborhood (cs1 ! bf) = map neighborhood (cells a ! bf) \<and>
          map pos (cs1 ! bf) = map pos (cells a ! bf)"
    "cs1 ! keep = cells a ! keep"
    "map_option length d1 = map_option length (image_data a)"
    unfolding frame_def by blast
  have c: "cells c = cs1" "image_data c = d1" "step c = step a" unfolding 1(1) by simp_all
  from assms(2) obtain cs2 d2 cc2 ci2 where 2:
    "d = c\<lparr>cells := cs2, image_data := d2, currentCell := cc2, currentId := ci2\<rparr>"
    "length cs2 = length cs1"
    "\<forall>bf. map neighborhood (cs2 ! bf) = map neighborhood (cs1 ! bf) \<and>
          map pos (cs2 ! bf) = map pos (cs1 ! bf)"
    "cs2 ! keep = cs1 ! keep"
    "map_option length d2 = map_option length d1"
    unfolding frame_def c by blast
  show ?thesis
  proof (rule frameI[where cs = cs2 and d = d2 and cc = cc2 and ci = ci2])
    show "d = a\<lparr>cells := cs2, image_data := d2, currentCell := cc2, currentId := ci2\<rparr>"
      unfolding 2(1) 1(1) by simp
  qed (simp_all add: 1 2)
qed

lemma map_field_update:
  assumes "F y = F (xs ! i)"
  shows "map F (xs[i := y]) = map F xs"
proof (cases "i < length xs")
  case True
  then show ?thesis using assms by (simp add: map_update list_update_same_conv)
next
  case False
  then show ?thesis by (simp add: not_less list_update_beyond)
qed

lemma loop_cell_frame:
  assumes "loop_cell cv lp i rd = Inr rd'"
  shows "frame (step rd) rd rd'"
  using assms
proof (rule loop_cell_cases)
  fix x d sl
  assume d: "map_option length d = map_option length (image_data rd)"
    and sl: "slot_at rd (1 - step rd, i) = Some sl"
    and rd': "rd' = (bind_cell i rd)\<lparr>image_data := d,
             cells := (cells rd)[1 - step rd := (cells rd ! (1 - step rd))[i := sl\<lparr>cell := x\<rparr>]]\<rparr>"
  let ?nb = "1 - step rd"
  let ?cs = "(cells rd)[?nb := (cells rd ! ?nb)[i := sl\<lparr>cell := x\<rparr>]]"
  have sl_eq: "sl = cells rd ! ?nb ! i" and nb_len: "?nb < length (cells rd)"
    using sl by (auto simp: slot_at_def split: if_splits)
  have ne: "?nb \<noteq> step rd" by (cases "step rd") simp_all
  show ?thesis
  proof (rule frameI[where cs = ?cs and d = d])
    show "rd' = rd\<lparr>cells := ?cs, image_data := d, currentCell := currentCell (bind_cell i rd),
                    currentId := currentId (bind_cell i rd)\<rparr>"
      unfolding rd' by (simp add: bind_cell_def)
    show "length ?cs = length (cells rd)" by simp
    show "map neighborhood (?cs ! bf) = map neighborhood (cells rd ! bf)" for bf
      using nb_len by (cases "bf = ?nb") (simp_all add: map_field_update sl_eq)
    show "map pos (?cs ! bf) = map pos (cells rd ! bf)" for bf
      using nb_len by (cases "bf = ?nb") (simp_all add: map_field_update sl_eq)
    show "?cs ! step rd = cells rd ! step rd" using ne by simp
    show "map_option length d = map_option length (image_data rd)" by (rule d)
  qed
qed

lemma scan_frame:
  assumes "each_in xs (loop_cell cv lp) rd = Inr rd'"
  shows "frame (step rd) rd rd'"
  using assms
proof (rule each_in_invariant[where R = "frame (step rd)"])
  show "frame (step rd) rd rd" by (rule frame_refl)
  show "frame (step rd) rd c" if "frame (step rd) rd a" "loop_cell cv lp i a = Inr c" for i a c
  proof -
    have "step a = step rd" using that(1) by (auto elim!: frameE)
    with loop_cell_frame[OF that(2)] have "frame (step rd) a c" by simp
    with that(1) show ?thesis by (rule frame_trans)
  qed
qed

lemma frame_grid_ok:
  assumes "frame keep rd rd'" "grid_ok rd"
  shows "grid_ok rd'"
  using assms(1)
proof (rule frameE)
  fix cs d cc ci
  assume *: "rd' = rd\<lparr>cells := cs, image_data := d, currentCell := cc, currentId := ci\<rparr>"
    "length cs = length (cells rd)"
    "\<And>bf. map neighborhood (cs ! bf) = map neighborhood (cells rd ! bf)"
    "\<And>bf. map pos (cs ! bf) = map pos (cells rd ! bf)"
    "map_option length d = map_option length (image_data rd)"
  show ?thesis using assms(2) unfolding grid_ok_def *(1) by (simp add: *(2-5))
qed

lemma frame_current:
  assumes "frame keep rd rd'"
  shows "step rd' = step rd" "width rd' = width rd" "height rd' = height rd"
    "cellSize rd' = cellSize rd" "cells rd' ! keep = cells rd ! keep"
  using assms by (auto elim!: frameE)

lemma neighbor_cell_frame:
  assumes "frame (step rd) rd rd'"
  shows "neighbor_cell rd' i k = neighbor_cell rd i k"
  by (simp add: neighbor_cell_def frame_current[OF assms] split: option.splits)

subsection \<open>What a pass stores\<close>

lemma slot_at_Some:
  "slot_at rd (bf, i) = Some sl \<longleftrightarrow>
     bf < length (cells rd) \<and> i < length (cells rd ! bf) \<and> sl = cells rd ! bf ! i"
  by (auto simp: slot_at_def)

lemma scan_results:
  assumes "each_in [0..<m] (loop_cell cv lp) rd = Inr rdm" "j < m"
  shows "\<exists>sl. slot_at rdm (1 - step rd, j) = Some sl \<and> tick_result cv lp j rd = Some (cell sl)"
  using assms
proof (induction m arbitrary: rdm)
  case 0
  then show ?case by simp
next
  case (Suc m)
  from Suc.prems(1) obtain rdk where pre: "each_in [0..<m] (loop_cell cv lp) rd = Inr rdk"
    and last: "loop_cell cv lp m rdk = Inr rdm"
    by (auto simp: each_in_append split: sum.splits)
  have stk: "step rdk = step rd" using pre by (rule scan_step)
  let ?nb = "1 - step rd"
  from last obtain x d sl where
    run: "run cv lp (bind_cell m rdk) = Inr (x, (bind_cell m rdk)\<lparr>image_data := d\<rparr>)"
    and sl: "slot_at rdk (?nb, m) = Some sl"
    and rdm: "rdm = (bind_cell m rdk)\<lparr>image_data := d,
             cells := (cells rdk)[?nb := (cells rdk ! ?nb)[m := sl\<lparr>cell := x\<rparr>]]\<rparr>"
    unfolding stk[symmetric] by (rule loop_cell_cases)
  have cells: "cells rdm = (cells rdk)[?nb := (cells rdk ! ?nb)[m := sl\<lparr>cell := x\<rparr>]]"
    unfolding rdm by simp
  from sl have inb: "?nb < length (cells rdk)" "m < length (cells rdk ! ?nb)"
    by (simp_all add: slot_at_Some)
  show ?case
  proof (cases "j = m")
    case True
    have "tick_result cv lp m rd = Some x"
      by (simp add: tick_result_def tick_view_def pre run)
    moreover have "slot_at rdm (?nb, m) = Some (sl\<lparr>cell := x\<rparr>)"
      using inb by (simp add: slot_at_Some cells)
    ultimately show ?thesis using True by simp
  next
    case False
    with Suc.prems(2) have "j < m" by simp
    from Suc.IH[OF pre this] obtain sl' where
      sl': "slot_at rdk (?nb, j) = Some sl'" "tick_result cv lp j rd = Some (cell sl')"
      by blast
    have "slot_at rdm (?nb, j) = Some sl'"
      using sl'(1) inb False by (simp add: slot_at_Some cells)
    with sl'(2) show ?thesis by simp
  qed
qed

lemma construct_cell_cases:
  assumes "construct_cell cv cp i rd = Inr rd'"
  obtains x d sl where
    "run cv cp (rd\<lparr>currentId := Some (int i)\<rparr>) = Inr (x, rd\<lparr>currentId := Some (int i), image_data := d\<rparr>)"
    "map_option length d = map_option length (image_data rd)"
    "slot_at rd (step rd, i) = Some sl"
    "rd' = rd\<lparr>currentId := Some (int i), image_data := d,
             cells := (cells rd)[step rd := (cells rd ! step rd)[i := sl\<lparr>cell := x\<rparr>]]\<rparr>"
proof -
  let ?rd1 = "rd\<lparr>currentId := Some (int i)\<rparr>"
  from assms obtain x rd2 where run: "run cv cp ?rd1 = Inr (x, rd2)"
    and upd: "slot_upd (step rd2, i) (\<lambda>sl. sl\<lparr>cell := x\<rparr>) rd2 = Inr rd'"
    by (auto simp: construct_cell_def Let_def split: sum.splits)
  from run_only_image[OF run] obtain d where d: "rd2 = ?rd1\<lparr>image_data := d\<rparr>"
    "map_option length d = map_option length (image_data rd)"
    unfolding only_image_def by auto
  have st: "step rd2 = step rd" "cells rd2 = cells rd" "slot_at rd2 = slot_at rd"
    unfolding d(1) by (simp_all add: slot_at_def fun_eq_iff)
  from upd obtain sl where sl: "slot_at rd (step rd, i) = Some sl"
    and rd': "rd' = rd2\<lparr>cells := (cells rd)[step rd := (cells rd ! step rd)[i := sl\<lparr>cell := x\<rparr>]]\<rparr>"
    unfolding slot_upd_def st by (auto split: option.splits)
  show thesis
    by (rule that[OF run[unfolded d(1)] d(2) sl]) (simp add: rd' d(1))
qed

lemma construct_cell_frame:
  assumes "construct_cell cv cp i rd = Inr rd'"
  shows "frame (1 - step rd) rd rd'"
  using assms
proof (rule construct_cell_cases)
  fix x d sl
  assume d: "map_option length d = map_option length (image_data rd)"
    and sl: "slot_at rd (step rd, i) = Some sl"
    and rd': "rd' = rd\<lparr>currentId := Some (int i), image_data := d,
             cells := (cells rd)[step rd := (cells rd ! step rd)[i := sl\<lparr>cell := x\<rparr>]]\<rparr>"
  let ?cs = "(cells rd)[step rd := (cells rd ! step rd)[i := sl\<lparr>cell := x\<rparr>]]"
  have sl_eq: "sl = cells rd ! step rd ! i" and in_len: "step rd < length (cells rd)"
    using sl by (simp_all add: slot_at_Some)
  have ne: "1 - step rd \<noteq> step rd" by (cases "step rd") simp_all
  show ?thesis
  proof (rule frameI[where cs = ?cs and d = d])
    show "rd' = rd\<lparr>cells := ?cs, image_data := d, currentCell := currentCell rd,
                    currentId := Some (int i)\<rparr>"
      unfolding rd' by simp
    show "length ?cs = length (cells rd)" by simp
    show "map neighborhood (?cs ! bf) = map neighborhood (cells rd ! bf)" for bf
      using in_len by (cases "bf = step rd") (simp_all add: map_field_update sl_eq)
    show "map pos (?cs ! bf) = map pos (cells rd ! bf)" for bf
      using in_len by (cases "bf = step rd") (simp_all add: map_field_update sl_eq)
    show "?cs ! (1 - step rd) = cells rd ! (1 - step rd)" using ne by simp
    show "map_option length d = map_option length (image_data rd)" by (rule d)
  qed
qed

lemma construct_frame:
  assumes "each_in xs (construct_cell cv cp) rd = Inr rd'"
  shows "frame (1 - step rd) rd rd'"
  using assms
proof (rule each_in_invariant[where R = "frame (1 - step rd)"])
  show "frame (1 - step rd) rd rd" by (rule frame_refl)
  show "frame (1 - step rd) rd c"
    if "frame (1 - step rd) rd a" "construct_cell cv cp i a = Inr c" for i a c
  proof -
    have "step a = step rd" using that(1) by (auto elim!: frameE)
    with construct_cell_frame[OF that(2)] have "frame (1 - step rd) a c" by simp
    with that(1) show ?thesis by (rule frame_trans)
  qed
qed

lemma construct_results:
  assumes "each_in [0..<m] (construct_cell cv cp) rd = Inr rdm" "j < m"
  shows "\<exists>sl. slot_at rdm (step rd, j) = Some sl \<and> construct_result cv cp j rd = Some (cell sl)"
  using assms
proof (induction m arbitrary: rdm)
  case 0
  then show ?case by simp
next
  case (Suc m)
  from Suc.prems(1) obtain rdk where pre: "each_in [0..<m] (construct_cell cv cp) rd = Inr rdk"
    and last: "construct_cell cv cp m rdk = Inr rdm"
    by (auto simp: each_in_append split: sum.splits)
  have stk: "step rdk = step rd" using construct_frame[OF pre] by (auto elim!: frameE)
  from last obtain x d sl where
    run: "run cv cp (rdk\<lparr>currentId := Some (int m)\<rparr>) =
            Inr (x, rdk\<lparr>currentId := Some (int m), image_data := d\<rparr>)"
    and sl: "slot_at rdk (step rd, m) = Some sl"
    and rdm: "rdm = rdk\<lparr>currentId := Some (int m), image_data := d,
             cells := (cells rdk)[step rd := (cells rdk ! step rd)[m := sl\<lparr>cell := x\<rparr>]]\<rparr>"
    unfolding stk[symmetric] by (rule construct_cell_cases)
  have cells: "cells rdm = (cells rdk)[step rd := (cells rdk ! step rd)[m := sl\<lparr>cell := x\<rparr>]]"
    unfolding rdm by simp
  from sl have inb: "step rd < length (cells rdk)" "m < length (cells rdk ! step rd)"
    by (simp_all add: slot_at_Some)
  show ?case
  proof (cases "j = m")
    case True
    have "construct_result cv cp m rd = Some x"
      by (simp add: construct_result_def pre run)
    moreover have "slot_at rdm (step rd, m) = Some (sl\<lparr>cell := x\<rparr>)"
      using inb by (simp add: slot_at_Some cells)
    ultimately show ?thesis using True by simp
  next
    case False
    with Suc.prems(2) have "j < m" by simp
    from Suc.IH[OF pre this] obtain sl' where
      sl': "slot_at rdk (step rd, j) = Some sl'" "construct_result cv cp j rd = Some (cell sl')"
      by blast
    have "slot_at rdm (step rd, j) = Some sl'"
      using sl'(1) inb False by (simp add: slot_at_Some cells)
    with sl'(2) show ?thesis by simp
  qed
qed

subsection \<open>Start and tick keep the grid\<close>

lemma run_config_keeps:
  "run_config cfg rd = Inr rd' \<Longrightarrow>
     step rd' = step rd \<and> setupDone rd' = setupDone rd \<and> currentCell rd' = currentCell rd \<and>
     currentId rd' = currentId rd"
proof (induction cfg rd rule: run_config.induct)
  case (1 rd)
  then show ?case by simp
next
  case (2 w hg cs rd)
  then show ?case by (auto simp: setSize_def split: if_splits)
next
  case (3 n cs rd)
  then show ?case by (auto simp: setCellSize_def split: if_splits)
next
  case (4 p cs rd)
  then show ?case by (auto simp: setParent_def split: if_splits)
next
  case (5 f cs rd)
  then show ?case
    by (auto simp: setFramerate_def setInterval_def clearInterval_def Let_def split: option.splits)
qed

lemma start_cases:
  assumes "start hst rd0 = Inr rd"
  obtains rd1 rd2 rd3 where
    "setup_phase hst rd0 = Inr rd1"
    "createAutomaton (elementIds hst) rd1 = Inr rd2"
    "construct_phase hst rd2 = Inr rd3"
    "rd = rd3\<lparr>timers := timers rd3 @ [(nextTimer rd3, 1000 div fps rd3)],
              nextTimer := Suc (nextTimer rd3), interval := Some (nextTimer rd3)\<rparr>"
  using assms
  by (auto simp: start_def setInterval_def Let_def split: sum.splits)

lemma setup_phase_keeps:
  assumes "setup_phase hst rd = Inr rd'"
  shows "step rd' = step rd" "setupDone rd' = setupDone rd" "currentCell rd' = currentCell rd"
  using assms run_config_keeps[of _ rd rd']
  by (auto simp: setup_phase_def split: option.splits)

lemma construct_phase_cases:
  assumes "construct_phase hst rd = Inr rd'"
  obtains "g_construct hst = None" "rd' = rd"
  | cp rd1 where "g_construct hst = Some cp"
      "each_in [0..<width rd * height rd] (construct_cell (hsvToRgb hst) cp) rd = Inr rd1"
      "rd' = unbind rd1"
  using assms
  by (auto simp: construct_phase_def for_loop_upt split: option.splits sum.splits)

lemma grid_ok_unbind: "grid_ok (unbind rd) = grid_ok rd"
  by (simp add: grid_ok_def unbind_def)

lemma construct_phase_grid_ok:
  assumes "construct_phase hst rd = Inr rd'" "grid_ok rd"
  shows "grid_ok rd'"
  using assms(1)
proof (cases rule: construct_phase_cases)
  case 1
  then show ?thesis using assms(2) by simp
next
  case (2 cp rd1)
  from construct_frame[OF 2(2)] assms(2) have "grid_ok rd1" by (rule frame_grid_ok)
  then show ?thesis by (simp add: 2(3) grid_ok_unbind)
qed

lemma start_grid_ok:
  assumes "start hst rd0 = Inr rd" "step rd0 \<le> 1"
  shows "grid_ok rd"
  using assms(1)
proof (rule start_cases)
  fix rd1 rd2 rd3
  assume 1: "setup_phase hst rd0 = Inr rd1"
    and 2: "createAutomaton (elementIds hst) rd1 = Inr rd2"
    and 3: "construct_phase hst rd2 = Inr rd3"
    and 4: "rd = rd3\<lparr>timers := timers rd3 @ [(nextTimer rd3, 1000 div fps rd3)],
              nextTimer := Suc (nextTimer rd3), interval := Some (nextTimer rd3)\<rparr>"
  have "step rd1 \<le> 1" using setup_phase_keeps(1)[OF 1] assms(2) by simp
  with 2 have "grid_ok rd2" by (rule createAutomaton_grid_ok)
  with 3 have "grid_ok rd3" by (rule construct_phase_grid_ok)
  then show ?thesis unfolding 4 by (simp add: grid_ok_def)
qed

lemma onRender_grid_ok:
  assumes "onRender hst rd = Inr rd'" "grid_ok rd"
  shows "grid_ok rd'"
proof (cases "g_loop hst")
  case None
  then show ?thesis using assms by (simp add: onRender_def)
next
  case (Some lp)
  from assms(1) Some obtain rd1 d where
    scan: "for_loop 0 (width rd * height rd) (loop_cell (hsvToRgb hst) lp) rd = Inr rd1"
    and rd': "rd' = (unbind rd1)\<lparr>step := 1 - step rd1, screen := Some d\<rparr>"
    by (rule onRender_cases)
  from scan_frame[OF scan[unfolded for_loop_upt]] assms(2) have "grid_ok rd1"
    by (rule frame_grid_ok)
  then show ?thesis unfolding rd' by (simp add: grid_ok_def unbind_def)
qed

lemma tick_buffer:
  assumes "g_loop hst = Some lp" "onRender hst rd0 = Inr rd" "j < width rd0 * height rd0"
  shows "\<exists>sl. slot_at rd (1 - step rd0, j) = Some sl \<and>
              tick_result (hsvToRgb hst) lp j rd0 = Some (cell sl)"
proof -
  from assms(2,1) obtain rd1 d where
    scan: "for_loop 0 (width rd0 * height rd0) (loop_cell (hsvToRgb hst) lp) rd0 = Inr rd1"
    and rd: "rd = (unbind rd1)\<lparr>step := 1 - step rd1, screen := Some d\<rparr>"
    by (rule onRender_cases)
  have "slot_at rd = slot_at rd1" unfolding rd by (simp add: slot_at_def unbind_def fun_eq_iff)
  with scan_results[OF scan[unfolded for_loop_upt] assms(3)] show ?thesis by simp
qed

lemma start_buffer:
  assumes "start hst rd0 = Inr rd" "g_construct hst = Some cp"
  obtains rd2 where "materialized hst rd0 = Inr rd2"
    "width rd = width rd2" "height rd = height rd2" "step rd = step rd2"
    "\<And>j. j < width rd * height rd \<Longrightarrow>
       \<exists>sl. slot_at rd (step rd, j) = Some sl \<and>
            construct_result (hsvToRgb hst) cp j rd2 = Some (cell sl)"
  using assms(1)
proof (rule start_cases)
  fix rd1 rd2 rd3
  assume 1: "setup_phase hst rd0 = Inr rd1"
    and 2: "createAutomaton (elementIds hst) rd1 = Inr rd2"
    and 3: "construct_phase hst rd2 = Inr rd3"
    and 4: "rd = rd3\<lparr>timers := timers rd3 @ [(nextTimer rd3, 1000 div fps rd3)],
              nextTimer := Suc (nextTimer rd3), interval := Some (nextTimer rd3)\<rparr>"
  have m: "materialized hst rd0 = Inr rd2" by (simp add: materialized_def 1 2)
  from 3 assms(2) obtain rd' where
    pass: "each_in [0..<width rd2 * height rd2] (construct_cell (hsvToRgb hst) cp) rd2 = Inr rd'"
    and rd3: "rd3 = unbind rd'"
    by (cases rule: construct_phase_cases) simp_all
  note fr = frame_current[OF construct_frame[OF pass]]
  have same: "width rd = width rd2" "height rd = height rd2" "step rd = step rd2"
    "slot_at rd = slot_at rd'"
    unfolding 4 rd3 using fr by (simp_all add: unbind_def slot_at_def fun_eq_iff)
  show thesis
  proof (rule that[OF m same(1-3)])
    fix j assume "j < width rd * height rd"
    then have "j < width rd2 * height rd2" by (simp add: same)
    from construct_results[OF pass this] show
      "\<exists>sl. slot_at rd (step rd, j) = Some sl \<and>
            construct_result (hsvToRgb hst) cp j rd2 = Some (cell sl)"
      by (simp add: same)
  qed
qed

subsection \<open>Row-major order\<close>

lemma upt_row_major:
  "[0..<w * hg] = concat (map (\<lambda>y. map (\<lambda>x. x + y * w) [0..<w]) [0..<hg])"
proof (induction hg)
  case 0
  then show ?case by simp
next
  case (Suc hg)
  have "[0..<w * Suc hg] = [0..<w * hg] @ [w * hg..<w * hg + w]"
    using upt_add_eq_append[of 0 "w * hg" w] by (simp add: add.commute)
  moreover have "[w * hg..<w * hg + w] = map (\<lambda>x. x + hg * w) [0..<w]"
    using map_add_upt[of "hg * w" w] by (simp add: mult.commute add.commute)
  ultimately show ?case using Suc by simp
qed

subsection \<open>The offset of a pixel\<close>

lemma index_bound: "x < w \<Longrightarrow> y < hg \<Longrightarrow> x + y * w < w * (hg::nat)"
proof -
  assume "x < w" "y < hg"
  then have "Suc y * w \<le> hg * w" by (intro mult_le_mono1) simp
  with \<open>x < w\<close> show ?thesis by (simp add: mult.commute)
qed

lemma cell_coords:
  assumes "i < w * (hg::nat)"
  shows "i mod w < w" "i div w < hg"
proof -
  have "0 < w" using assms by (cases w) simp_all
  then show "i mod w < w" by simp
  show "i div w < hg" using assms by (simp add: less_mult_imp_div_less mult.commute)
qed

lemma point_offset:
  assumes "i < w * (hg::nat)" "x < cs" "y < cs"
  shows "pos_of w cs i ! y + x * 4 = pixelOrigin w cs i + (y * (w * cs) + x) * 4"
    and "pixelOrigin w cs i + (y * (w * cs) + x) * 4 = ((i div w * cs + y) * (w * cs) + (i mod w * cs + x)) * 4"
    and "i mod w * cs + x < w * cs"
    and "i div w * cs + y < hg * cs"
    and "pixelOrigin w cs i + (y * (w * cs) + x) * 4 + 3 < w * cs * (hg * cs) * 4"
proof -
  show "pos_of w cs i ! y + x * 4 = pixelOrigin w cs i + (y * (w * cs) + x) * 4"
    using assms(3) by (simp add: pos_of_def pixelOrigin_def algebra_simps)
  show eq: "pixelOrigin w cs i + (y * (w * cs) + x) * 4 = ((i div w * cs + y) * (w * cs) + (i mod w * cs + x)) * 4"
    by (simp add: pixelOrigin_def algebra_simps)
  show px: "i mod w * cs + x < w * cs"
    using index_bound[OF assms(2) cell_coords(1)[OF assms(1)]] by (simp add: add.commute mult.commute)
  show py: "i div w * cs + y < hg * cs"
    using index_bound[OF assms(3) cell_coords(2)[OF assms(1)]] by (simp add: add.commute mult.commute)
  have "(i mod w * cs + x) + (i div w * cs + y) * (w * cs) < w * cs * (hg * cs)"
    using px py by (rule index_bound)
  then show "pixelOrigin w cs i + (y * (w * cs) + x) * 4 + 3 < w * cs * (hg * cs) * 4"
    unfolding eq by simp
qed

lemma put_byte_nat: "k < length d \<Longrightarrow> put_byte (int k) x d = d[k := x]"
  by (simp add: put_byte_def)

lemma setPoint_bound:
  assumes "grid_ok rd" and "currentCell rd = Some (bf, i)" and "bf < 2"
    and "i < width rd * height rd" and "x < cellSize rd" and "y < cellSize rd"
    and "image_data rd = Some d"
    and "ofs = pixelOrigin (width rd) (cellSize rd) i + (y * (width rd * cellSize rd) + x) * 4"
    and "c' = (if h c \<noteq> None then cv c else c)"
  shows "ofs + 3 < length d \<and>
         setPoint cv (int x) (int y) c rd =
           Inr (rd\<lparr>image_data :=
                  Some (d[ofs := to_u8 (r c'), ofs + 1 := to_u8 (g c'), ofs + 2 := to_u8 (b c'),
                          ofs + 3 := 255])\<rparr>) \<and>
         (\<forall>n. 0 \<le> n \<and> n \<le> 255 \<longrightarrow> to_u8 (Some n) = nat n)"
proof -
  note sl = grid_ok_slot[OF assms(1,3,4)]
  have len: "length d = width rd * cellSize rd * (height rd * cellSize rd) * 4"
    using assms(1,7) by (simp add: grid_ok_def)
  note po = point_offset[OF assms(4,5,6)]
  have in_d: "ofs + 3 < length d" unfolding assms(8) len by (rule po(5))
  have ylen: "y < length (pos_of (width rd) (cellSize rd) i)" using assms(6) by (simp add: pos_of_def)
  have p: "int (pos_of (width rd) (cellSize rd) i ! y) + int x * 4 = int ofs"
    unfolding assms(8) po(1)[symmetric] by simp
  have c': "to_rgb cv c = c'" by (simp add: to_rgb_def assms(9))
  have bytes: "put_byte (int ofs + 3) 255
                 (put_byte (int ofs + 2) B (put_byte (int ofs + 1) G (put_byte (int ofs + 0) R d))) =
               d[ofs := R, ofs + 1 := G, ofs + 2 := B, ofs + 3 := 255]" for R G B
  proof -
    have "int ofs + 0 = int ofs" "int ofs + 1 = int (ofs + 1)" "int ofs + 2 = int (ofs + 2)"
      "int ofs + 3 = int (ofs + 3)" by simp_all
    then show ?thesis using in_d by (simp only: put_byte_nat length_list_update)
  qed
  have "setPoint cv (int x) (int y) c rd =
           Inr (rd\<lparr>image_data :=
                  Some (put_byte (int ofs + 3) 255
                         (put_byte (int ofs + 2) (to_u8 (b c'))
                           (put_byte (int ofs + 1) (to_u8 (g c'))
                             (put_byte (int ofs + 0) (to_u8 (r c')) d))))\<rparr>)"
    using ylen by (simp add: setPoint_def assms(2,7) sl(3,4) Let_def p c')
  then have "setPoint cv (int x) (int y) c rd =
           Inr (rd\<lparr>image_data :=
                  Some (d[ofs := to_u8 (r c'), ofs + 1 := to_u8 (g c'), ofs + 2 := to_u8 (b c'),
                          ofs + 3 := 255])\<rparr>)"
    unfolding bytes .
  moreover have "\<forall>n. 0 \<le> n \<and> n \<le> 255 \<longrightarrow> to_u8 (Some n) = nat n"
    by (simp add: to_u8_def)
  ultimately show ?thesis using in_d by blast
qed

subsection \<open>Painting a block\<close>

lemma painted_empty: "painted {} c d d"
  by (simp add: painted_def)

lemma painted_trans:
  assumes "painted S c d d1" "painted T c d1 d2"
  shows "painted (S \<union> T) c d d2"
  using assms unfolding painted_def by auto

lemma painted_point:
  assumes "m * 4 + 3 < length d"
  shows "painted {m} c d
           (d[m * 4 := to_u8 (r c), m * 4 + 1 := to_u8 (g c), m * 4 + 2 := to_u8 (b c),
              m * 4 + 3 := 255])"
proof -
  have "d[m * 4 := to_u8 (r c), m * 4 + 1 := to_u8 (g c), m * 4 + 2 := to_u8 (b c),
           m * 4 + 3 := 255] ! q = (if q div 4 \<in> {m} then rgba c ! (q mod 4) else d ! q)"
    if "q < length d" for q
  proof (cases "q div 4 = m")
    case True
    have "q mod 4 < 4" by simp
    then consider "q mod 4 = 0" | "q mod 4 = 1" | "q mod 4 = 2" | "q mod 4 = 3" by linarith
    then show ?thesis
    proof cases
      case 1
      then have "q = m * 4" using True by (metis add.right_neutral div_mult_mod_eq)
      then show ?thesis using assms 1 True by (simp add: rgba_def)
    next
      case 2
      then have "q = m * 4 + 1" using True by (metis div_mult_mod_eq)
      then show ?thesis using assms 2 True by (simp add: rgba_def)
    next
      case 3
      then have "q = m * 4 + 2" using True by (metis div_mult_mod_eq)
      then show ?thesis using assms 3 True by (simp add: rgba_def)
    next
      case 4
      then have "q = m * 4 + 3" using True by (metis div_mult_mod_eq)
      then show ?thesis using assms 4 True by (simp add: rgba_def)
    qed
  next
    case False
    then have "q \<noteq> m * 4" "q \<noteq> m * 4 + 1" "q \<noteq> m * 4 + 2" "q \<noteq> m * 4 + 3" by auto
    then show ?thesis using False by simp
  qed
  then show ?thesis by (simp add: painted_def)
qed

lemma bound_ok_image:
  assumes "bound_ok rd bf i" "image_data rd = Some d" "length d' = length d"
  shows "bound_ok (rd\<lparr>image_data := Some d'\<rparr>) bf i"
  using assms by (simp add: bound_ok_def grid_ok_def)

lemma setPoint_painted:
  assumes "bound_ok rd bf i" "x < cellSize rd" "y < cellSize rd" "image_data rd = Some d"
  shows "\<exists>d'. setPoint cv (int x) (int y) c rd = Inr (rd\<lparr>image_data := Some d'\<rparr>) \<and>
              painted {pixel_of rd i x y} (to_rgb cv c) d d'"
proof -
  let ?ofs = "pixelOrigin (width rd) (cellSize rd) i + (y * (width rd * cellSize rd) + x) * 4"
  have b: "grid_ok rd" "currentCell rd = Some (bf, i)" "bf < 2" "i < width rd * height rd"
    using assms(1) by (simp_all add: bound_ok_def)
  have ofs: "?ofs = pixel_of rd i x y * 4"
    unfolding pixel_of_def by (rule point_offset(2)[OF b(4) assms(2,3)])
  from setPoint_bound[OF b assms(2,3,4) refl, of "to_rgb cv c" c cv]
  have "pixel_of rd i x y * 4 + 3 < length d"
    and "setPoint cv (int x) (int y) c rd =
           Inr (rd\<lparr>image_data :=
              Some (d[pixel_of rd i x y * 4 := to_u8 (r (to_rgb cv c)),
                      pixel_of rd i x y * 4 + 1 := to_u8 (g (to_rgb cv c)),
                      pixel_of rd i x y * 4 + 2 := to_u8 (b (to_rgb cv c)),
                      pixel_of rd i x y * 4 + 3 := 255])\<rparr>)"
    unfolding ofs by (simp_all add: to_rgb_def)
  then show ?thesis using painted_point by blast
qed

lemma column_painted:
  assumes "bound_ok rd bf i" "x < cellSize rd" "\<forall>j \<in> set js. j < cellSize rd"
    "image_data rd = Some d"
  shows "\<exists>d'. each_in js (\<lambda>j. setPoint cv (int x) (int j) c) rd = Inr (rd\<lparr>image_data := Some d'\<rparr>) \<and>
              painted (pixel_of rd i x ` set js) (to_rgb cv c) d d'"
  using assms
proof (induction js arbitrary: rd d)
  case Nil
  have "rd\<lparr>image_data := Some d\<rparr> = rd" using Nil(4) by (cases rd) simp
  then have "each_in [] (\<lambda>j. setPoint cv (int x) (int j) c) rd = Inr (rd\<lparr>image_data := Some d\<rparr>)"
    by simp
  with painted_empty[of "to_rgb cv c" d] show ?case by (intro exI[of _ d]) simp
next
  case (Cons j js)
  from Cons.prems have j: "j < cellSize rd" and js: "\<forall>j \<in> set js. j < cellSize rd" by simp_all
  from setPoint_painted[OF Cons.prems(1,2) j Cons.prems(4), of cv c] obtain d1 where
    d1: "setPoint cv (int x) (int j) c rd = Inr (rd\<lparr>image_data := Some d1\<rparr>)"
    "painted {pixel_of rd i x j} (to_rgb cv c) d d1"
    by blast
  let ?rd1 = "rd\<lparr>image_data := Some d1\<rparr>"
  have len: "length d1 = length d" using d1(2) by (simp add: painted_def)
  have ok1: "bound_ok ?rd1 bf i" using Cons.prems(1,4) len by (rule bound_ok_image)
  have same: "cellSize ?rd1 = cellSize rd" "pixel_of ?rd1 = pixel_of rd"
    by (simp_all add: pixel_of_def fun_eq_iff)
  from Cons.IH[OF ok1, of d1] Cons.prems(2) js obtain d' where
    d': "each_in js (\<lambda>j. setPoint cv (int x) (int j) c) ?rd1 = Inr (rd\<lparr>image_data := Some d'\<rparr>)"
    "painted (pixel_of rd i x ` set js) (to_rgb cv c) d1 d'"
    unfolding same by auto
  have "painted ({pixel_of rd i x j} \<union> pixel_of rd i x ` set js) (to_rgb cv c) d d'"
    using d1(2) d'(2) by (rule painted_trans)
  then show ?case using d1(1) d'(1) by auto
qed

lemma block_painted:
  assumes "bound_ok rd bf i" "\<forall>x \<in> set xs. x < cellSize rd" "image_data rd = Some d"
  shows "\<exists>d'. each_in xs (\<lambda>x. for_loop 0 (cellSize rd) (\<lambda>j. setPoint cv (int x) (int j) c)) rd =
                 Inr (rd\<lparr>image_data := Some d'\<rparr>) \<and>
              painted (\<Union>x \<in> set xs. pixel_of rd i x ` {0..<cellSize rd}) (to_rgb cv c) d d'"
  using assms
proof (induction xs arbitrary: rd d)
  case Nil
  have "rd\<lparr>image_data := Some d\<rparr> = rd" using Nil(3) by (cases rd) simp
  then have "each_in [] (\<lambda>x. for_loop 0 (cellSize rd) (\<lambda>j. setPoint cv (int x) (int j) c)) rd =
      Inr (rd\<lparr>image_data := Some d\<rparr>)"
    by simp
  with painted_empty[of "to_rgb cv c" d] show ?case by (intro exI[of _ d]) simp
next
  case (Cons x xs)
  from Cons.prems have x: "x < cellSize rd" and xs: "\<forall>x \<in> set xs. x < cellSize rd" by simp_all
  from column_painted[OF Cons.prems(1) x _ Cons.prems(3), of "[0..<cellSize rd]" cv c] obtain d1 where
    d1: "for_loop 0 (cellSize rd) (\<lambda>j. setPoint cv (int x) (int j) c) rd = Inr (rd\<lparr>image_data := Some d1\<rparr>)"
    "painted (pixel_of rd i x ` {0..<cellSize rd}) (to_rgb cv c) d d1"
    unfolding for_loop_upt by auto
  let ?rd1 = "rd\<lparr>image_data := Some d1\<rparr>"
  have len: "length d1 = length d" using d1(2) by (simp add: painted_def)
  have ok1: "bound_ok ?rd1 bf i" using Cons.prems(1,3) len by (rule bound_ok_image)
  have same: "cellSize ?rd1 = cellSize rd" "pixel_of ?rd1 = pixel_of rd"
    by (simp_all add: pixel_of_def fun_eq_iff)
  from Cons.IH[OF ok1, of d1] xs obtain d' where
    d': "each_in xs (\<lambda>x. for_loop 0 (cellSize rd) (\<lambda>j. setPoint cv (int x) (int j) c)) ?rd1 =
           Inr (rd\<lparr>image_data := Some d'\<rparr>)"
    "painted (\<Union>x \<in> set xs. pixel_of rd i x ` {0..<cellSize rd}) (to_rgb cv c) d1 d'"
    unfolding same by auto
  have "painted (pixel_of rd i x ` {0..<cellSize rd} \<union>
                 (\<Union>x \<in> set xs. pixel_of rd i x ` {0..<cellSize rd})) (to_rgb cv c) d d'"
    using d1(2) d'(2) by (rule painted_trans)
  then show ?case using d1(1) d'(1) by auto
qed

lemma row_col_unique:
  assumes "a < W" "c < W" "p * W + a = q * W + (c::nat)"
  shows "p = q \<and> a = c"
proof -
  have "(p * W + a) div W = p" "(q * W + c) div W = q" using assms(1,2) by simp_all
  then have "p = q" using assms(3) by simp
  then show ?thesis using assms(3) by simp
qed

lemma block_member:
  assumes "i < w * (hg::nat)" "px < w * cs" "py < hg * cs"
  shows "(py * (w * cs) + px \<in>
            (\<Union>x \<in> {0..<cs}. (\<lambda>y. (i div w * cs + y) * (w * cs) + (i mod w * cs + x)) ` {0..<cs}))
         \<longleftrightarrow> (px div cs = i mod w \<and> py div cs = i div w)"
proof
  assume "py * (w * cs) + px \<in>
            (\<Union>x \<in> {0..<cs}. (\<lambda>y. (i div w * cs + y) * (w * cs) + (i mod w * cs + x)) ` {0..<cs})"
  then obtain x y where xy: "x < cs" "y < cs"
    and eq: "py * (w * cs) + px = (i div w * cs + y) * (w * cs) + (i mod w * cs + x)"
    by auto
  have "i mod w * cs + x < w * cs" by (rule point_offset(3)[OF assms(1) xy])
  from row_col_unique[OF assms(2) this eq] have "py = i div w * cs + y" "px = i mod w * cs + x"
    by simp_all
  then show "px div cs = i mod w \<and> py div cs = i div w" using xy by simp
next
  assume *: "px div cs = i mod w \<and> py div cs = i div w"
  have "0 < cs" using assms(2) by (cases cs) simp_all
  then have m: "px mod cs < cs" "py mod cs < cs" by simp_all
  have "py = i div w * cs + py mod cs" "px = i mod w * cs + px mod cs"
    using * by (metis div_mult_mod_eq)+
  then have "py * (w * cs) + px =
      (i div w * cs + py mod cs) * (w * cs) + (i mod w * cs + px mod cs)"
    by simp
  with m show "py * (w * cs) + px \<in>
            (\<Union>x \<in> {0..<cs}. (\<lambda>y. (i div w * cs + y) * (w * cs) + (i mod w * cs + x)) ` {0..<cs})"
    by (intro UN_I[of "px mod cs"] image_eqI[of _ _ "py mod cs"]) simp_all
qed

lemma setBackground_bound:
  assumes "grid_ok rd" and "currentCell rd = Some (bf, i)" and "bf < 2"
    and "i < width rd * height rd" and "image_data rd = Some d"
    and "c' = to_rgb cv (to_rgb cv c)"
  shows "\<exists>d'. setBackground cv c rd = Inr (rd\<lparr>image_data := Some d'\<rparr>) \<and>
              length d' = length d \<and>
              (\<forall>px < width rd * cellSize rd. \<forall>py < height rd * cellSize rd. \<forall>k < 4.
                 d' ! ((py * (width rd * cellSize rd) + px) * 4 + k) =
                   (if px div cellSize rd = i mod width rd \<and> py div cellSize rd = i div width rd
                    then [to_u8 (r c'), to_u8 (g c'), to_u8 (b c'), 255] ! k
                    else d ! ((py * (width rd * cellSize rd) + px) * 4 + k)))"
proof -
  have ok: "bound_ok rd bf i" using assms(1-4) by (simp add: bound_ok_def)
  have len: "length d = width rd * cellSize rd * (height rd * cellSize rd) * 4"
    using assms(1,5) by (simp add: grid_ok_def)
  let ?S = "\<Union>x \<in> {0..<cellSize rd}. pixel_of rd i x ` {0..<cellSize rd}"
  from block_painted[OF ok _ assms(5), of "[0..<cellSize rd]" cv "to_rgb cv c"] obtain d' where
    run: "setBackground cv c rd = Inr (rd\<lparr>image_data := Some d'\<rparr>)"
    and pt: "painted ?S c' d d'"
    unfolding setBackground_def Let_def for_loop_upt assms(6) by auto
  have "d' ! ((py * (width rd * cellSize rd) + px) * 4 + k) =
          (if px div cellSize rd = i mod width rd \<and> py div cellSize rd = i div width rd
           then [to_u8 (r c'), to_u8 (g c'), to_u8 (b c'), 255] ! k
           else d ! ((py * (width rd * cellSize rd) + px) * 4 + k))"
    if "px < width rd * cellSize rd" "py < height rd * cellSize rd" "k < 4" for px py k
  proof -
    let ?m = "py * (width rd * cellSize rd) + px"
    have "px + py * (width rd * cellSize rd) < width rd * cellSize rd * (height rd * cellSize rd)"
      using that(1,2) by (rule index_bound)
    then have q: "?m * 4 + k < length d" using that(3) unfolding len by simp
    have "(m * 4 + k) div 4 = m" "(m * 4 + k) mod 4 = k" for m :: nat using that(3) by simp_all
    note dm = this[of ?m]
    have mem: "?m \<in> ?S \<longleftrightarrow>
        (px div cellSize rd = i mod width rd \<and> py div cellSize rd = i div width rd)"
      using block_member[OF assms(4) that(1,2)] by (simp add: pixel_of_def)
    from pt q have "d' ! (?m * 4 + k) =
        (if (?m * 4 + k) div 4 \<in> ?S then rgba c' ! ((?m * 4 + k) mod 4) else d ! (?m * 4 + k))"
      unfolding painted_def by blast
    then have "d' ! (?m * 4 + k) = (if ?m \<in> ?S then rgba c' ! k else d ! (?m * 4 + k))"
      unfolding dm .
    then show ?thesis unfolding mem by (simp add: rgba_def)
  qed
  moreover have "length d' = length d" using pt by (simp add: painted_def)
  ultimately show ?thesis using run by blast
qed

subsection \<open>Drawing with and without a bound cell\<close>

lemma setPoint_unbound: "currentCell rd = None \<Longrightarrow> setPoint cv px py c rd = Inl LoopOnly"
  by (simp add: setPoint_def)

lemma setBackground_unbound:
  assumes "currentCell rd = None" "0 < cellSize rd"
  shows "setBackground cv c rd = Inl LoopOnly"
  using assms
  by (simp add: setBackground_def Let_def for_loop.simps[of 0] setPoint_unbound)

lemma setPoint_ok:
  assumes "bound_ok rd bf i"
  shows "\<exists>rd'. setPoint cv px py c rd = Inr rd'"
proof -
  have b: "grid_ok rd" "currentCell rd = Some (bf, i)" "bf < 2" "i < width rd * height rd"
    using assms by (simp_all add: bound_ok_def)
  note sl = grid_ok_slot[OF b(1,3,4)]
  from b(1) obtain d where "image_data rd = Some d" by (auto simp: grid_ok_def)
  then show ?thesis by (simp add: setPoint_def b(2) sl(3,4) Let_def)
qed

lemma setBackground_ok:
  assumes "bound_ok rd bf i"
  shows "\<exists>rd'. setBackground cv c rd = Inr rd'"
proof -
  have b: "grid_ok rd" "currentCell rd = Some (bf, i)" "bf < 2" "i < width rd * height rd"
    using assms by (simp_all add: bound_ok_def)
  from b(1) obtain d where "image_data rd = Some d" by (auto simp: grid_ok_def)
  from setBackground_bound[OF b this refl, of cv c] show ?thesis by blast
qed

lemma construct_cell_draws:
  assumes "currentCell rd = None"
  shows "construct_cell cv (CallPoint px py c k) i rd = Inl LoopOnly"
    and "0 < cellSize rd \<Longrightarrow> construct_cell cv (CallBackground c k) i rd = Inl LoopOnly"
  using assms by (simp_all add: construct_cell_def setPoint_unbound setBackground_unbound)

subsection \<open>The set-up flag and the identifier\<close>

lemma construct_phase_setupDone:
  assumes "construct_phase hst rd = Inr rd'"
  shows "setupDone rd' = setupDone rd"
  using assms
proof (cases rule: construct_phase_cases)
  case 1
  then show ?thesis by simp
next
  case (2 cp rd1)
  from construct_frame[OF 2(2)] show ?thesis by (auto simp: 2(3) unbind_def elim!: frameE)
qed

lemma start_setupDone:
  assumes "start hst rd = Inr rd'"
  shows "setupDone rd' = setupDone rd"
  using assms
proof (rule start_cases)
  fix rd1 rd2 rd3
  assume 1: "setup_phase hst rd = Inr rd1"
    and 2: "createAutomaton (elementIds hst) rd1 = Inr rd2"
    and 3: "construct_phase hst rd2 = Inr rd3"
    and 4: "rd' = rd3\<lparr>timers := timers rd3 @ [(nextTimer rd3, 1000 div fps rd3)],
              nextTimer := Suc (nextTimer rd3), interval := Some (nextTimer rd3)\<rparr>"
  have "setupDone rd2 = setupDone rd1" unfolding createAutomaton_result[OF 2] by simp
  then show ?thesis
    unfolding 4 using setup_phase_keeps(2)[OF 1] construct_phase_setupDone[OF 3] by simp
qed

lemma config_guard:
  assumes "setupDone rd"
  shows "setCellSize n rd = Inl SetupOnly" "setSize w hg rd = Inl SetupOnly"
    "setParent p rd = Inl SetupOnly"
  using assms by (simp_all add: setCellSize_def setSize_def setParent_def)

lemma accessors_unbound:
  assumes "currentCell rd = None"
  shows "getCell rd = Inl LoopOnly" "cloneCell rd = Inl LoopOnly" "getNeighbor k rd = Inl LoopOnly"
  using assms by (simp_all add: getCell_def cloneCell_def getNeighbor_def)

lemma getId_unbound: "getId (unbind rd) = Inr (- 1)" "getId new_renderer = Inr (- 1)"
  by (simp_all add: getId_def unbind_def new_renderer_def)

subsection \<open>The scheduler\<close>

lemma stop_running: "running rd \<Longrightarrow> idle (stop rd)"
  by (auto simp: running_def idle_def stop_def clearInterval_def filter_empty_conv
      split: option.splits)

lemma idle_setFramerate: "idle rd \<Longrightarrow> idle (setFramerate f rd)"
  by (simp add: idle_def setFramerate_def)

lemma idle_stop: "idle rd \<Longrightarrow> stop rd = rd"
  by (simp add: idle_def stop_def)

lemma replay_idle:
  assumes "idle rd"
  shows "(Fire \<in> set evs \<longrightarrow> replay hst evs rd = None) \<and>
         (Fire \<notin> set evs \<longrightarrow> (\<exists>rd'. replay hst evs rd = Some (Inr rd') \<and> idle rd'))"
  using assms
proof (induction evs arbitrary: rd)
  case Nil
  then show ?case by simp
next
  case (Cons ev evs)
  show ?case
  proof (cases ev)
    case Fire
    then show ?thesis using Cons.prems by (simp add: idle_def)
  next
    case (Framerate f)
    then show ?thesis using Cons.IH[OF idle_setFramerate[OF Cons.prems]] by simp
  next
    case Stop
    then show ?thesis using Cons.IH[OF Cons.prems] Cons.prems by (simp add: idle_stop)
  qed
qed

lemma start_arms_timer:
  assumes "start hst rd = Inr rd'"
  shows "timers rd' \<noteq> []" "interval rd' \<noteq> None"
  using assms by (auto elim!: start_cases)

lemma running_setFramerate: "running rd \<Longrightarrow> running (setFramerate f rd)"
  by (auto simp: running_def setFramerate_def setInterval_def clearInterval_def Let_def
      filter_empty_conv split: option.splits)

lemma setup_phase_timers:
  assumes "setup_phase hst rd = Inr rd'" "idle rd"
  shows "idle rd'"
proof -
  have "run_config cfg a = Inr c \<Longrightarrow> idle a \<Longrightarrow> idle c" for cfg and a c :: "'a renderer"
  proof (induction cfg a rule: run_config.induct)
    case (1 rd)
    then show ?case by simp
  next
    case (2 w hg cs rd)
    then show ?case by (auto simp: setSize_def idle_def split: if_splits)
  next
    case (3 n cs rd)
    then show ?case by (auto simp: setCellSize_def idle_def split: if_splits)
  next
    case (4 p cs rd)
    then show ?case by (auto simp: setParent_def idle_def split: if_splits)
  next
    case (5 f cs rd)
    then show ?case using idle_setFramerate by auto
  qed
  then show ?thesis using assms by (auto simp: setup_phase_def split: option.splits)
qed

lemma construct_phase_timers:
  assumes "construct_phase hst rd = Inr rd'"
  shows "timers rd' = timers rd \<and> interval rd' = interval rd \<and> nextTimer rd' = nextTimer rd"
  using assms
proof (cases rule: construct_phase_cases)
  case 1
  then show ?thesis by simp
next
  case (2 cp rd1)
  from construct_frame[OF 2(2)] show ?thesis
    by (auto simp: 2(3) unbind_def elim!: frameE)
qed

lemma start_running:
  assumes "start hst rd = Inr rd'" "idle rd"
  shows "running rd'"
  using assms(1)
proof (rule start_cases)
  fix rd1 rd2 rd3
  assume 1: "setup_phase hst rd = Inr rd1"
    and 2: "createAutomaton (elementIds hst) rd1 = Inr rd2"
    and 3: "construct_phase hst rd2 = Inr rd3"
    and 4: "rd' = rd3\<lparr>timers := timers rd3 @ [(nextTimer rd3, 1000 div fps rd3)],
              nextTimer := Suc (nextTimer rd3), interval := Some (nextTimer rd3)\<rparr>"
  have "idle rd1" using 1 assms(2) by (rule setup_phase_timers)
  then have "idle rd2" unfolding createAutomaton_result[OF 2] by (simp add: idle_def)
  then have "timers rd3 = []" using construct_phase_timers[OF 3] by (simp add: idle_def)
  then show ?thesis unfolding 4 by (simp add: running_def)
qed

subsection \<open>The sketch, run\<close>

lemma demo_materialized: "materialized demo new_renderer = Inr demo0"
  by code_simp

lemma demo_start: "start demo new_renderer = Inr demo1"
  by code_simp

lemma demo_tick: "onRender demo demo1 = Inr demo2"
  by code_simp

lemma demo_view: "tick_view (\<lambda>c. c) demo_loop 2 demo2 = Inr (bind_cell 2 demo_mid)"
  by code_simp

lemma demo_grid_ok: "grid_ok demo1" "grid_ok demo2"
  by code_simp+

lemma demo_host: "g_loop demo = Some demo_loop" "g_construct demo = Some demo_construct"
  "hsvToRgb demo = (\<lambda>c. c)"
  by (simp_all add: demo_def)

section \<open>The properties\<close>

text \<open>
  C1. In every tick and for every cell \<open>i\<close>, what the cell context reads while the
  call-back of cell \<open>i\<close> runs (through \<^verbatim>\<open>cell()\<close>, \<^verbatim>\<open>cloneCell()\<close> or a neighbour
  accessor) is the content of the current buffer as it was when the tick began: the writes
  of the cells visited before \<open>i\<close> in this tick do not reach it, and a neighbour is read
  in the same buffer. That content is, for every cell, the value its loop call-back
  returned in the tick before, or the value its construct call-back returned when
  \<^verbatim>\<open>start\<close> has just run.
\<close>

theorem reads_previous_generation:
  assumes "grid_ok rd" and "i < width rd * height rd" and "tick_view cv lp i rd = Inr vw"
  shows "getCell vw = Inr (cell (cells rd ! step rd ! i)) \<and>
         cloneCell vw = Inr (cell (cells rd ! step rd ! i)) \<and>
         (\<forall>k. getNeighbor k vw = Inr (neighbor_cell rd i k)) \<and>
         (\<forall>hst rd0. g_loop hst = Some lp \<and> hsvToRgb hst = cv \<and> onRender hst rd0 = Inr rd \<longrightarrow>
            (\<forall>j < width rd * height rd.
               tick_result cv lp j rd0 = Some (cell (cells rd ! step rd ! j)))) \<and>
         (\<forall>hst rd0 cp. g_construct hst = Some cp \<and> hsvToRgb hst = cv \<and> start hst rd0 = Inr rd \<longrightarrow>
            (\<exists>rd2. materialized hst rd0 = Inr rd2 \<and>
               (\<forall>j < width rd * height rd.
                  construct_result cv cp j rd2 = Some (cell (cells rd ! step rd ! j)))))"
proof -
  from assms(3) obtain rdi where pre: "each_in [0..<i] (loop_cell cv lp) rd = Inr rdi"
    and vw: "vw = bind_cell i rdi"
    by (auto simp: tick_view_def split: sum.splits)
  note fr = scan_frame[OF pre]
  note cur = frame_current[OF fr]
  have ok: "grid_ok rdi" using fr assms(1) by (rule frame_grid_ok)
  have i: "i < width rdi * height rdi" using assms(2) by (simp add: cur)
  have same: "cells rdi ! step rdi ! i = cells rd ! step rd ! i" by (simp add: cur)
  have "getCell vw = Inr (cell (cells rd ! step rd ! i))"
    unfolding vw getCell_bound(1)[OF ok i] same ..
  moreover have "cloneCell vw = Inr (cell (cells rd ! step rd ! i))"
    unfolding vw getCell_bound(2)[OF ok i] same ..
  moreover have "getNeighbor k vw = Inr (neighbor_cell rd i k)" for k
    unfolding vw getNeighbor_bound[OF ok i] neighbor_cell_frame[OF fr] ..
  moreover have "tick_result cv lp j rd0 = Some (cell (cells rd ! step rd ! j))"
    if "g_loop hst = Some lp" "hsvToRgb hst = cv" "onRender hst rd0 = Inr rd"
      "j < width rd * height rd" for hst :: "'a host" and rd0 j
  proof -
    from that(3,1) obtain rd1 d where
      scan: "for_loop 0 (width rd0 * height rd0) (loop_cell (hsvToRgb hst) lp) rd0 = Inr rd1"
      and rd: "rd = (unbind rd1)\<lparr>step := 1 - step rd1, screen := Some d\<rparr>"
      by (rule onRender_cases)
    note c0 = frame_current[OF scan_frame[OF scan[unfolded for_loop_upt]]]
    have dims: "width rd = width rd0" "height rd = height rd0" "step rd = 1 - step rd0"
      unfolding rd by (simp_all add: unbind_def c0)
    from tick_buffer[OF that(1,3)] that(4) obtain sl where
      "slot_at rd (1 - step rd0, j) = Some sl" "tick_result (hsvToRgb hst) lp j rd0 = Some (cell sl)"
      unfolding dims by blast
    then show ?thesis by (simp add: slot_at_Some dims that(2))
  qed
  moreover have "\<exists>rd2. materialized hst rd0 = Inr rd2 \<and>
               (\<forall>j < width rd * height rd.
                  construct_result cv cp j rd2 = Some (cell (cells rd ! step rd ! j)))"
    if "g_construct hst = Some cp" "hsvToRgb hst = cv" "start hst rd0 = Inr rd"
    for hst :: "'a host" and rd0 cp
    using that(3,1)
  proof (rule start_buffer)
    fix rd2
    assume m: "materialized hst rd0 = Inr rd2"
      and res: "\<And>j. j < width rd * height rd \<Longrightarrow>
       \<exists>sl. slot_at rd (step rd, j) = Some sl \<and>
            construct_result (hsvToRgb hst) cp j rd2 = Some (cell sl)"
    have "construct_result cv cp j rd2 = Some (cell (cells rd ! step rd ! j))"
      if "j < width rd * height rd" for j
      using res[OF that] \<open>hsvToRgb hst = cv\<close> by (auto simp: slot_at_Some)
    with m show ?thesis by blast
  qed
  ultimately show ?thesis by blast
qed

theorem reads_previous_generation_witness:
  "getCell (bind_cell 2 demo_mid) = Inr (cell (cells demo2 ! step demo2 ! 2)) \<and>
   cell (cells demo2 ! step demo2 ! 2) = Some False \<and>
   getNeighbor 1 (bind_cell 2 demo_mid) = Inr (neighbor_cell demo2 2 1) \<and>
   tick_result (\<lambda>c. c) demo_loop 2 demo1 = Some (cell (cells demo2 ! step demo2 ! 2)) \<and>
   construct_result (\<lambda>c. c) demo_construct 0 demo0 = Some (cell (cells demo1 ! step demo1 ! 0)) \<and>
   cell (cells demo1 ! step demo1 ! 0) = Some True"
proof -
  have i2: "2 < width demo2 * height demo2" by code_simp
  note second = reads_previous_generation[OF demo_grid_ok(2) i2 demo_view]
  have i1: "0 < width demo1 * height demo1" by code_simp
  have view1: "tick_view (\<lambda>c. c) demo_loop 0 demo1 = Inr (bind_cell 0 demo1)"
    by (simp add: tick_view_def)
  note first = reads_previous_generation[OF demo_grid_ok(1) i1 view1]
  have "\<exists>rd2. materialized demo new_renderer = Inr rd2 \<and>
          (\<forall>j < width demo1 * height demo1.
             construct_result (\<lambda>c. c) demo_construct j rd2 = Some (cell (cells demo1 ! step demo1 ! j)))"
    using first demo_host demo_start by blast
  then have "construct_result (\<lambda>c. c) demo_construct 0 demo0 = Some (cell (cells demo1 ! step demo1 ! 0))"
    using i1 by (simp add: demo_materialized)
  moreover have "tick_result (\<lambda>c. c) demo_loop 2 demo1 = Some (cell (cells demo2 ! step demo2 ! 2))"
    using second demo_host demo_tick i2 by blast
  moreover have "cell (cells demo2 ! step demo2 ! 2) = Some False" by code_simp
  moreover have "cell (cells demo1 ! step demo1 ! 0) = Some True" by code_simp
  ultimately show ?thesis using second by blast
qed

text \<open>
  C2. A tick that scans (the sketch has a loop call-back) and completes flips the index of
  the current buffer: \<open>step\<close> after the tick is \<open>1 - step\<close>, which differs from \<open>step\<close>
  before it.
\<close>

theorem step_alternates:
  assumes "g_loop hst = Some lp" and "onRender hst rd = Inr rd'"
  shows "step rd' = 1 - step rd \<and> step rd' \<noteq> step rd"
proof -
  from assms(2,1) obtain rd1 d where
    scan: "for_loop 0 (width rd * height rd) (loop_cell (hsvToRgb hst) lp) rd = Inr rd1"
    and rd': "rd' = (unbind rd1)\<lparr>step := 1 - step rd1, screen := Some d\<rparr>"
    by (rule onRender_cases)
  have "step rd1 = step rd" using scan unfolding for_loop_upt by (rule scan_step)
  then have "step rd' = 1 - step rd" unfolding rd' by simp
  then show ?thesis by (cases "step rd") simp_all
qed

theorem step_alternates_witness:
  "g_loop demo = Some demo_loop \<and> onRender demo demo1 = Inr demo2 \<and>
   step demo1 = 0 \<and> step demo2 = 1 - step demo1 \<and> step demo2 \<noteq> step demo1"
proof -
  have "step demo1 = 0" by code_simp
  then show ?thesis
    using step_alternates[OF demo_host(1) demo_tick] demo_host(1) demo_tick by simp
qed

text \<open>
  C3. On a grid whose slots exist, the neighborhood computed for \<open>(x, y)\<close> has, in each
  buffer, exactly 8 entries, in the order TOPLEFT, TOP, TOPRIGHT, RIGHT, BOTTOMRIGHT,
  BOTTOM, BOTTOMLEFT, LEFT; the entry of an offset is absent exactly when the coordinate
  at that offset is outside \<open>[0, width) \<times> [0, height)\<close> (the edges do not wrap), and an
  interior cell has no absent entry.
\<close>

theorem computeNeighborhood_entries:
  assumes "length (cells rd) = 2"
    and "length (cells rd ! 0) = width rd * height rd"
    and "length (cells rd ! 1) = width rd * height rd"
  shows "fst (computeNeighborhood rd x y) = neighbors_of (width rd) (height rd) 0 x y \<and>
         snd (computeNeighborhood rd x y) = neighbors_of (width rd) (height rd) 1 x y \<and>
         length (fst (computeNeighborhood rd x y)) = 8 \<and>
         length (snd (computeNeighborhood rd x y)) = 8 \<and>
         (\<forall>k<8. (fst (computeNeighborhood rd x y) ! k = None) =
                  (\<not> (0 \<le> x + fst (offsets ! k) \<and> x + fst (offsets ! k) < int (width rd) \<and>
                      0 \<le> y + snd (offsets ! k) \<and> y + snd (offsets ! k) < int (height rd))) \<and>
                (snd (computeNeighborhood rd x y) ! k = None) = (fst (computeNeighborhood rd x y) ! k = None)) \<and>
         (0 < x \<and> x + 1 < int (width rd) \<and> 0 < y \<and> y + 1 < int (height rd) \<longrightarrow>
            None \<notin> set (fst (computeNeighborhood rd x y)) \<and>
            None \<notin> set (snd (computeNeighborhood rd x y)))"
proof -
  note eq = computeNeighborhood_neighbors_of[OF assms, of x y]
  have len: "length (neighbors_of w hg bf x y) = 8" for w hg bf
    by (simp add: neighbors_of_def)
  have absent: "(neighbors_of w hg bf x y ! k = None) =
      (\<not> (0 \<le> x + fst (offsets ! k) \<and> x + fst (offsets ! k) < int w \<and>
          0 \<le> y + snd (offsets ! k) \<and> y + snd (offsets ! k) < int hg))" if "k < 8" for k w hg bf
    by (simp add: neighbors_of_nth[OF that] neighbor_at_def)
  have interior: "None \<notin> set (neighbors_of w hg bf x y)"
    if "0 < x" "x + 1 < int w" "0 < y" "y + 1 < int hg" for w hg bf
    using that by (simp add: neighbors_of_def neighbor_at_def)
  show ?thesis
    unfolding eq fst_conv snd_conv using len absent interior by simp
qed

theorem computeNeighborhood_entries_witness:
  "fst (computeNeighborhood grid3 1 1) =
     [Some (0, 0), Some (0, 1), Some (0, 2), Some (0, 5), Some (0, 8), Some (0, 7), Some (0, 6), Some (0, 3)] \<and>
   None \<notin> set (snd (computeNeighborhood grid3 1 1)) \<and>
   snd (computeNeighborhood grid3 0 0) =
     [None, None, None, Some (1, 1), Some (1, 4), Some (1, 3), None, None]"
proof -
  have slots: "length (cells grid3) = 2" "length (cells grid3 ! 0) = width grid3 * height grid3"
    "length (cells grid3 ! 1) = width grid3 * height grid3"
    by (simp_all add: grid3_def new_renderer_def)
  have dims: "width grid3 = 3" "height grid3 = 3" by (simp_all add: grid3_def new_renderer_def)
  from computeNeighborhood_entries[OF slots, of 1 1] computeNeighborhood_entries[OF slots, of 0 0]
  show ?thesis
    by (simp add: dims neighbors_of_def neighbor_at_def)
qed

text \<open>
  C4. The loop of a tick is the visit of the indices \<open>0, \<dots>, width * height - 1\<close>, each
  once and in increasing order; this order is row-major, \<open>x\<close> varying fastest. After the
  tick, the slot \<open>i\<close> of the buffer that was the next one holds, for every index \<open>i\<close>,
  the value the loop call-back returned in the turn of cell \<open>i\<close>.
\<close>

theorem scan_visits_all:
  assumes "g_loop hst = Some lp" and "onRender hst rd = Inr rd'"
  shows "(\<exists>rd1. for_loop 0 (width rd * height rd) (loop_cell (hsvToRgb hst) lp) rd = Inr rd1 \<and>
               each_in [0..<width rd * height rd] (loop_cell (hsvToRgb hst) lp) rd = Inr rd1 \<and>
               cells rd' = cells rd1) \<and>
         [0..<width rd * height rd] =
           concat (map (\<lambda>y. map (\<lambda>x. x + y * width rd) [0..<width rd]) [0..<height rd]) \<and>
         (\<forall>i < width rd * height rd.
            \<exists>sl. slot_at rd' (1 - step rd, i) = Some sl \<and>
                 tick_result (hsvToRgb hst) lp i rd = Some (cell sl))"
proof -
  from assms(2,1) obtain rd1 d where
    scan: "for_loop 0 (width rd * height rd) (loop_cell (hsvToRgb hst) lp) rd = Inr rd1"
    and rd': "rd' = (unbind rd1)\<lparr>step := 1 - step rd1, screen := Some d\<rparr>"
    by (rule onRender_cases)
  have "cells rd' = cells rd1" unfolding rd' by (simp add: unbind_def)
  with scan have "\<exists>rd1. for_loop 0 (width rd * height rd) (loop_cell (hsvToRgb hst) lp) rd = Inr rd1 \<and>
               each_in [0..<width rd * height rd] (loop_cell (hsvToRgb hst) lp) rd = Inr rd1 \<and>
               cells rd' = cells rd1"
    by (simp add: for_loop_upt)
  moreover note upt_row_major[of "width rd" "height rd"]
  moreover have "\<forall>i < width rd * height rd.
            \<exists>sl. slot_at rd' (1 - step rd, i) = Some sl \<and>
                 tick_result (hsvToRgb hst) lp i rd = Some (cell sl)"
    using tick_buffer[OF assms] by blast
  ultimately show ?thesis by blast
qed

theorem scan_visits_all_witness:
  "for_loop 0 (width demo1 * height demo1) (loop_cell (hsvToRgb demo) demo_loop) demo1 =
     each_in [0, 1, 2, 3] (loop_cell (hsvToRgb demo) demo_loop) demo1 \<and>
   [0..<width demo1 * height demo1] = [0 + 0 * 2, 1 + 0 * 2, 0 + 1 * 2, 1 + 1 * 2] \<and>
   slot_at demo2 (1, 2) = Some (cells demo2 ! 1 ! 2) \<and>
   tick_result (hsvToRgb demo) demo_loop 2 demo1 = Some (cell (cells demo2 ! 1 ! 2)) \<and>
   cell (cells demo2 ! 1 ! 2) = Some False"
proof -
  note t = scan_visits_all[OF demo_host(1) demo_tick]
  have dims: "width demo1 = 2" "height demo1 = 2" "step demo1 = 0" by code_simp+
  have upt4: "[0..<4] = [0, 1, 2, 3::nat]" by code_simp
  from t have "for_loop 0 (width demo1 * height demo1) (loop_cell (hsvToRgb demo) demo_loop) demo1 =
     each_in [0..<width demo1 * height demo1] (loop_cell (hsvToRgb demo) demo_loop) demo1"
    by auto
  then have 1: "for_loop 0 (width demo1 * height demo1) (loop_cell (hsvToRgb demo) demo_loop) demo1 =
     each_in [0, 1, 2, 3] (loop_cell (hsvToRgb demo) demo_loop) demo1"
    by (simp add: dims upt4)
  have 2: "[0..<width demo1 * height demo1] = [0 + 0 * 2, 1 + 0 * 2, 0 + 1 * 2, 1 + 1 * 2]"
    by (simp add: dims upt4)
  from t have "\<exists>sl. slot_at demo2 (1 - step demo1, 2) = Some sl \<and>
                 tick_result (hsvToRgb demo) demo_loop 2 demo1 = Some (cell sl)"
    by (simp add: dims)
  then have 3: "slot_at demo2 (1, 2) = Some (cells demo2 ! 1 ! 2)"
    "tick_result (hsvToRgb demo) demo_loop 2 demo1 = Some (cell (cells demo2 ! 1 ! 2))"
    by (auto simp: dims slot_at_Some)
  have 4: "cell (cells demo2 ! 1 ! 2) = Some False" by code_simp
  from 1 2 3 4 show ?thesis by blast
qed

text \<open>
  C5. While the context is bound to cell \<open>i\<close> of the grid, a point drawn at \<open>(x, y)\<close> with
  \<open>x\<close> and \<open>y\<close> below the cell size writes exactly the 4 bytes at the raster offset
  \<open>pixelOrigin i + (y * rasterWidth + x) * 4\<close>, with \<open>rasterWidth = width * cellSize\<close>:
  the red, green and blue channels of the colour and 255 for alpha; every other byte of
  the image and every other field of the renderer is as before. A colour with an \<open>h\<close>
  field is converted first, any other colour is taken as it is. A channel is stored as a
  byte, which is the channel itself when it is between 0 and 255. \<open>pixelOrigin i\<close> is
  the first of the offsets the slot of cell \<open>i\<close> carries.
\<close>

theorem setPoint_writes_pixel:
  assumes "grid_ok rd" and "currentCell rd = Some (bf, i)" and "bf < 2"
    and "i < width rd * height rd" and "x < cellSize rd" and "y < cellSize rd"
    and "image_data rd = Some d"
    and "ofs = pixelOrigin (width rd) (cellSize rd) i + (y * (width rd * cellSize rd) + x) * 4"
    and "c' = (if h c \<noteq> None then cv c else c)"
  shows "ofs + 3 < length d \<and>
         setPoint cv (int x) (int y) c rd =
           Inr (rd\<lparr>image_data :=
                  Some (d[ofs := to_u8 (r c'), ofs + 1 := to_u8 (g c'), ofs + 2 := to_u8 (b c'),
                          ofs + 3 := 255])\<rparr>) \<and>
         (\<forall>n. 0 \<le> n \<and> n \<le> 255 \<longrightarrow> to_u8 (Some n) = nat n) \<and>
         map_option (\<lambda>ps. ps ! 0) (pos (cells rd ! bf ! i)) =
           Some (pixelOrigin (width rd) (cellSize rd) i)"
proof -
  have "0 < cellSize rd" using assms(5) by simp
  then have "pos_of (width rd) (cellSize rd) i ! 0 = pixelOrigin (width rd) (cellSize rd) i"
    by (simp add: pos_of_def pixelOrigin_def algebra_simps)
  then have "map_option (\<lambda>ps. ps ! 0) (pos (cells rd ! bf ! i)) =
           Some (pixelOrigin (width rd) (cellSize rd) i)"
    by (simp add: grid_ok_slot(3)[OF assms(1,3,4)])
  with setPoint_bound[where cv = cv and c = c, OF assms] show ?thesis by blast
qed

theorem setPoint_writes_pixel_witness:
  "setPoint (\<lambda>c. red) 1 1 hsv_red (bind_cell 3 demo1) =
     Inr ((bind_cell 3 demo1)\<lparr>image_data := Some ((replicate 64 0)[60 := 255, 61 := 0, 62 := 0, 63 := 255])\<rparr>) \<and>
   to_u8 (Some 200) = 200"
proof -
  have hyps: "grid_ok (bind_cell 3 demo1)" "currentCell (bind_cell 3 demo1) = Some (0, 3)" "(0::nat) < 2"
    "3 < width (bind_cell 3 demo1) * height (bind_cell 3 demo1)"
    "1 < cellSize (bind_cell 3 demo1)" "1 < cellSize (bind_cell 3 demo1)"
    "image_data (bind_cell 3 demo1) = Some (replicate 64 0)"
    "60 = pixelOrigin (width (bind_cell 3 demo1)) (cellSize (bind_cell 3 demo1)) 3 +
            (1 * (width (bind_cell 3 demo1) * cellSize (bind_cell 3 demo1)) + 1) * 4"
    by code_simp+
  have c: "red = (if h hsv_red \<noteq> None then (\<lambda>c. red) hsv_red else hsv_red)"
    by (simp add: hsv_red_def)
  have chan: "to_u8 (r red) = 255" "to_u8 (g red) = 0" "to_u8 (b red) = 0" by code_simp+
  from setPoint_writes_pixel[OF hyps c] show ?thesis
    by (simp add: chan)
qed

text \<open>
  C6. While the context is bound to cell \<open>i\<close> of the grid, filling the background
  writes the colour, alpha 255, to every pixel of the block of \<open>cellSize\<close> by \<open>cellSize\<close>
  pixels of that cell, and leaves every other byte of the raster as it was. The colour
  passes the conversion of \<^verbatim>\<open>setBackground\<close> and that of \<^verbatim>\<open>setPoint\<close>; a colour with
  no \<open>h\<close> field is written as it is. (With a cell size of 2 on a grid of 2 by 2 cells,
  red at cell 0 fills the 2 by 2 block at the origin.)
\<close>

theorem setBackground_fills_cell:
  assumes "grid_ok rd" and "currentCell rd = Some (bf, i)" and "bf < 2"
    and "i < width rd * height rd" and "image_data rd = Some d"
    and "c' = to_rgb cv (to_rgb cv c)"
  shows "(\<exists>d'. setBackground cv c rd = Inr (rd\<lparr>image_data := Some d'\<rparr>) \<and>
              length d' = length d \<and>
              (\<forall>px < width rd * cellSize rd. \<forall>py < height rd * cellSize rd. \<forall>k < 4.
                 d' ! ((py * (width rd * cellSize rd) + px) * 4 + k) =
                   (if px div cellSize rd = i mod width rd \<and> py div cellSize rd = i div width rd
                    then [to_u8 (r c'), to_u8 (g c'), to_u8 (b c'), 255] ! k
                    else d ! ((py * (width rd * cellSize rd) + px) * 4 + k)))) \<and>
         (h c = None \<longrightarrow> c' = c)"
proof -
  have "h c = None \<longrightarrow> c' = c" by (simp add: assms(6) to_rgb_def)
  with setBackground_bound[OF assms] show ?thesis by blast
qed

theorem setBackground_fills_cell_witness:
  "setBackground (\<lambda>c. c) red (bind_cell 0 demo1) =
     Inr ((bind_cell 0 demo1)\<lparr>image_data := Some red_block\<rparr>) \<and>
   red_block ! ((1 * (2 * 2) + 1) * 4 + 0) = 255 \<and>
   red_block ! ((1 * (2 * 2) + 1) * 4 + 3) = 255 \<and>
   red_block ! ((0 * (2 * 2) + 2) * 4 + 0) = 0"
proof -
  let ?rd = "bind_cell 0 demo1"
  have hyps: "grid_ok ?rd" "currentCell ?rd = Some (0, 0)" "(0::nat) < 2"
    "0 < width ?rd * height ?rd" "image_data ?rd = Some (replicate 64 0)"
    by code_simp+
  have c: "red = to_rgb (\<lambda>c. c) (to_rgb (\<lambda>c. c) red)" by (simp add: to_rgb_def)
  have dims: "width ?rd = 2" "height ?rd = 2" "cellSize ?rd = 2" by code_simp+
  have chan: "to_u8 (r red) = 255" "to_u8 (g red) = 0" "to_u8 (b red) = 0" by code_simp+
  have run: "setBackground (\<lambda>c. c) red ?rd = Inr (?rd\<lparr>image_data := Some red_block\<rparr>)"
    by code_simp
  from setBackground_fills_cell[OF hyps c] obtain d' where
    d': "setBackground (\<lambda>c. c) red ?rd = Inr (?rd\<lparr>image_data := Some d'\<rparr>)"
    and px: "\<forall>px < 4. \<forall>py < 4. \<forall>k < 4.
                 d' ! ((py * 4 + px) * 4 + k) =
                   (if px div 2 = 0 \<and> py div 2 = 0
                    then [255, 0, 0, 255] ! k
                    else replicate 64 0 ! ((py * 4 + px) * 4 + k))"
    unfolding dims chan by auto
  have "image_data (?rd\<lparr>image_data := Some d'\<rparr>) = image_data (?rd\<lparr>image_data := Some red_block\<rparr>)"
    using d' run by simp
  then have eq: "d' = red_block" by simp
  have "red_block ! ((1 * 4 + 1) * 4 + 0) = 255" "red_block ! ((1 * 4 + 1) * 4 + 3) = 255"
    "red_block ! ((0 * 4 + 2) * 4 + 0) = 0"
    using px[rule_format, of 1 1 0] px[rule_format, of 1 1 3] px[rule_format, of 2 0 0]
    unfolding eq by simp_all
  with run show ?thesis by simp
qed

text \<open>
  C7. After \<^verbatim>\<open>start\<close> has run, the configuration functions still succeed and change
  the configuration: nothing in the source ever sets \<open>setupDone\<close>, which their guard
  tests. The renderer that \<^verbatim>\<open>start\<close> returns for the sketch above accepts a new cell
  size, a new size and a new parent.
\<close>

theorem config_after_start_succeeds:
  "start demo new_renderer = Inr demo1 \<and>
   setupDone demo1 = False \<and>
   setCellSize 5 demo1 = Inr (demo1\<lparr>cellSize := 5\<rparr>) \<and>
   setSize 7 7 demo1 = Inr (demo1\<lparr>width := 7, height := 7\<rparr>) \<and>
   setParent (Some ''box'') demo1 = Inr (demo1\<lparr>parentId := Some ''box''\<rparr>)"
proof -
  have "setupDone demo1 = setupDone (new_renderer :: bool renderer)"
    using demo_start by (rule start_setupDone)
  then have "setupDone demo1 = False" by (simp add: new_renderer_def)
  then show ?thesis
    by (simp add: demo_start setCellSize_def setSize_def setParent_def)
qed

text \<open>
  C8. Outside a pass, \<^verbatim>\<open>id()\<close> does not fail: \<^verbatim>\<open>getId\<close> compares the identifier with
  \<^verbatim>\<open>null\<close>, and the value the identifier has outside a pass is \<open>- 1\<close>. On a new
  renderer and after a completed tick it returns \<open>- 1\<close>; the other three accessors fail
  there.
\<close>

theorem getId_outside_scan:
  "getId (new_renderer :: bool renderer) = Inr (- 1) \<and>
   onRender demo demo1 = Inr demo2 \<and>
   getId demo2 = Inr (- 1) \<and>
   getCell demo2 = Inl LoopOnly \<and>
   cloneCell demo2 = Inl LoopOnly \<and>
   getNeighbor 0 demo2 = Inl LoopOnly"
proof -
  have unbound: "currentCell demo2 = None" "currentId demo2 = Some (- 1)" by code_simp+
  then have "getId demo2 = Inr (- 1)" by (simp add: getId_def)
  then show ?thesis using unbound(1) by (simp add: demo_tick accessors_unbound getId_unbound)
qed

text \<open>
  C9, as stated, fails: a construct call-back that draws a point makes \<^verbatim>\<open>start\<close> throw.
\<close>

theorem construct_draw_fails: "start demo_draws new_renderer = Inl LoopOnly"
  by code_simp

text \<open>
  C9, amended. On a grid, with a cell size of at least 1 and a context that is unbound
  or bound to a slot of the grid, a draw call (point or background) succeeds exactly when
  a cell is bound to the context. A cell is bound in the turn of every cell of a scan. None
  is bound after a pass; and the construction pass binds the identifier only, so that
  during it, as outside any pass, point and background fail at once.
\<close>

theorem draws_need_bound_cell:
  assumes "grid_ok rd" and "well_bound rd" and "0 < cellSize rd"
  shows "((\<exists>rd'. setPoint cv px py c rd = Inr rd') \<longleftrightarrow> currentCell rd \<noteq> None) \<and>
         ((\<exists>rd'. setBackground cv c rd = Inr rd') \<longleftrightarrow> currentCell rd \<noteq> None) \<and>
         (currentCell rd = None \<longrightarrow>
            setPoint cv px py c rd = Inl LoopOnly \<and> setBackground cv c rd = Inl LoopOnly \<and>
            construct_cell cv (CallPoint px py c k) i rd = Inl LoopOnly \<and>
            construct_cell cv (CallBackground c k) i rd = Inl LoopOnly) \<and>
         (i < width rd * height rd \<longrightarrow> currentCell (bind_cell i rd) = Some (step rd, i)) \<and>
         currentCell (unbind rd) = None"
proof (cases "currentCell rd")
  case None
  have "i < width rd * height rd \<longrightarrow> currentCell (bind_cell i rd) = Some (step rd, i)"
    using grid_ok_slot(4)[OF assms(1), of "step rd" i] assms(1)
    by (simp add: bind_cell_def grid_ok_def)
  then show ?thesis
    using None assms(3)
    by (simp add: setPoint_unbound setBackground_unbound construct_cell_draws unbind_def)
next
  case (Some cr)
  then have "bound_ok rd (fst cr) (snd cr)" using assms(1,2) by (simp add: bound_ok_def well_bound_def)
  from setPoint_ok[OF this, of cv px py c] setBackground_ok[OF this, of cv c]
  have "\<exists>rd'. setPoint cv px py c rd = Inr rd'" "\<exists>rd'. setBackground cv c rd = Inr rd'" .
  moreover have "i < width rd * height rd \<longrightarrow> currentCell (bind_cell i rd) = Some (step rd, i)"
    using grid_ok_slot(4)[OF assms(1), of "step rd" i] assms(1)
    by (simp add: bind_cell_def grid_ok_def)
  ultimately show ?thesis using Some by (simp add: unbind_def)
qed

theorem draws_need_bound_cell_witness:
  "setPoint (\<lambda>c. c) 0 0 red demo1 = Inl LoopOnly \<and>
   setBackground (\<lambda>c. c) red demo1 = Inl LoopOnly \<and>
   construct_cell (\<lambda>c. c) (CallPoint 0 0 red (Return None)) 0 demo1 = Inl LoopOnly \<and>
   currentCell (bind_cell 1 demo1) = Some (step demo1, 1) \<and>
   (\<exists>rd'. setPoint (\<lambda>c. c) 0 0 red (bind_cell 1 demo1) = Inr rd') \<and>
   (\<exists>rd'. setBackground (\<lambda>c. c) red (bind_cell 1 demo1) = Inr rd')"
proof -
  have h1: "grid_ok demo1" "well_bound demo1" "0 < cellSize demo1" by code_simp+
  have n1: "currentCell demo1 = None" "1 < width demo1 * height demo1" by code_simp+
  let ?b = "bind_cell 1 demo1"
  have h2: "grid_ok ?b" "well_bound ?b" "0 < cellSize ?b" by code_simp+
  have n2: "currentCell ?b \<noteq> None" by code_simp
  from draws_need_bound_cell[OF h1, of "\<lambda>c. c" 0 0 red "Return None" 1] n1
  have "setPoint (\<lambda>c. c) 0 0 red demo1 = Inl LoopOnly"
    "setBackground (\<lambda>c. c) red demo1 = Inl LoopOnly"
    "construct_cell (\<lambda>c. c) (CallPoint 0 0 red (Return None)) 1 demo1 = Inl LoopOnly"
    "currentCell (bind_cell 1 demo1) = Some (step demo1, 1)"
    by simp_all
  moreover from draws_need_bound_cell[OF h1, of "\<lambda>c. c" 0 0 red "Return None" 0] n1
  have "construct_cell (\<lambda>c. c) (CallPoint 0 0 red (Return None)) 0 demo1 = Inl LoopOnly"
    by simp
  moreover from draws_need_bound_cell[OF h2, of "\<lambda>c. c" 0 0 red] n2
  have "\<exists>rd'. setPoint (\<lambda>c. c) 0 0 red ?b = Inr rd'" "\<exists>rd'. setBackground (\<lambda>c. c) red ?b = Inr rd'"
    by simp_all
  ultimately show ?thesis by simp
qed

text \<open>
  C10. When the scheduler is running, \<^verbatim>\<open>stop()\<close> leaves it idle, no timer armed and none
  held. From there on no sequence of events in which a timer fires can happen, whatever
  the frame rate is set to and however often \<^verbatim>\<open>stop()\<close> is called again; the events
  without a firing leave the scheduler idle. A \<^verbatim>\<open>start\<close> that succeeds arms a timer
  again. A tick, once dispatched, is a single event: it runs its scan to the end.
\<close>

theorem stop_prevents_ticks:
  assumes "running rd"
  shows "idle (stop rd) \<and>
         (Fire \<in> set evs \<longrightarrow> replay hst evs (stop rd) = None) \<and>
         (Fire \<notin> set evs \<longrightarrow> (\<exists>rd'. replay hst evs (stop rd) = Some (Inr rd') \<and> idle rd')) \<and>
         (\<forall>rd'. start hst (stop rd) = Inr rd' \<longrightarrow> timers rd' \<noteq> [] \<and> interval rd' \<noteq> None)"
  using stop_running[OF assms] replay_idle[of "stop rd" evs hst] start_arms_timer[of hst "stop rd"]
  by blast

theorem stop_prevents_ticks_witness:
  "running demo1 \<and> idle (stop demo1) \<and>
   replay demo [Framerate 60, Fire] (stop demo1) = None \<and>
   replay demo [Fire] demo1 = Some (Inr demo2) \<and>
   (\<exists>rd'. replay demo [Framerate 60, Stop] (stop demo1) = Some (Inr rd') \<and> idle rd')"
proof -
  have r: "running demo1" by code_simp
  have t: "replay demo [Fire] demo1 = Some (Inr demo2)" by code_simp
  from stop_prevents_ticks[OF r, of "[Framerate 60, Fire]" demo]
    stop_prevents_ticks[OF r, of "[Framerate 60, Stop]" demo] r t
  show ?thesis by simp
qed

end
